theory Spec2Isabelle
  imports Complex_Main "HOL-Library.AList" "HOL-Library.Log_Nat"
begin

section \<open>Numbers and their decimal text\<close>

text \<open>
  The analyzer (\<^verbatim>\<open>StudentScoreAnalyzer\<close>, the second document of \<^verbatim>\<open>src/src/index.js\<close>)
  computes on JavaScript numbers, the doubles of IEEE 754. A number is modelled as a real,
  and the result of an arithmetic operation of the statistics, of the density curve and of
  the percentages is rounded to the nearest double by \<open>fl\<close> (below); the numbers the
  engine holds are the reals that \<open>fl\<close> leaves as they are. Integer-valued numbers
  (rounded scores, bin starts, counts) are \<open>int\<close> or \<open>nat\<close>. The sampler, the histogram and
  the quartiles, which select and compare scores, are on the reals themselves. The one
  place where the engine produces a non-number from finite scores, the division \<open>0 / 0\<close>
  of the variance of a single score, is kept as the value \<open>NaN\<close>, and so is what follows
  from it.
\<close>

datatype jsnum = Fin real | NaN

text \<open>
  Rounding to the nearest double, a tie going to the even significand: a nonzero \<open>x\<close> with
  \<open>2\<^sup>e \<le> \<bar>x\<bar> < 2\<^sup>e\<^sup>+\<^sup>1\<close>, where \<open>e\<close> is \<open>binade x\<close> (the number of binary digits of the integer
  part of \<open>\<bar>x\<bar>\<close>, less one, or for \<open>\<bar>x\<bar> < 1\<close> the negated number of binary digits of the
  integer just below \<open>1 / \<bar>x\<bar>\<close>; \<open>floorlog 2\<close> counts binary digits), is scaled to \<open>\<bar>x\<bar> \<cdot> 2\<^sup>5\<^sup>2\<^sup>-\<^sup>e\<close>, which lies between \<open>2\<^sup>5\<^sup>2\<close> and
  \<open>2\<^sup>5\<^sup>3\<close>, rounded to an integer (the significand of 53 bits) and scaled back. The
  exponent is not bounded: overflow to infinity and the subnormal numbers below
  \<open>2\<^sup>-\<^sup>1\<^sup>0\<^sup>2\<^sup>2\<close> are not modelled; the statistics of scores between 0 and 100 stay far
  from both.
\<close>

definition pow2 :: "int \<Rightarrow> real" where
  "pow2 k = (if 0 \<le> k then 2 ^ nat k else 1 / 2 ^ nat (- k))"

definition round_even :: "real \<Rightarrow> int" where
  "round_even y =
     (let f = \<lfloor>y\<rfloor>; r = y - real_of_int f
      in if r < 1 / 2 then f else if 1 / 2 < r then f + 1 else if even f then f else f + 1)"

definition binade :: "real \<Rightarrow> int" where
  "binade x =
     (if 1 \<le> \<bar>x\<bar> then int (floorlog 2 (nat \<lfloor>\<bar>x\<bar>\<rfloor>)) - 1
      else - int (floorlog 2 (nat (\<lceil>1 / \<bar>x\<bar>\<rceil> - 1))))"

definition fl :: "real \<Rightarrow> real" where
  "fl x =
     (if x = 0 then 0
      else sgn x * real_of_int (round_even (\<bar>x\<bar> * pow2 (52 - binade x))) * pow2 (binade x - 52))"

text \<open>\<^verbatim>\<open>Math.round\<close>: the nearest integer, a tie going up.\<close>

definition js_round :: "real \<Rightarrow> int" where
  "js_round x = \<lfloor>x + 1 / 2\<rfloor>"

text \<open>\<^verbatim>\<open>Math.sqrt\<close>: the square root, rounded to a double.\<close>

definition js_sqrt :: "jsnum \<Rightarrow> jsnum" where
  "js_sqrt v = (case v of NaN \<Rightarrow> NaN | Fin r \<Rightarrow> if r < 0 then NaN else Fin (fl (sqrt r)))"

definition digit_char :: "nat \<Rightarrow> char" where
  "digit_char d = ''0123456789'' ! (d mod 10)"

function show_nat :: "nat \<Rightarrow> string" where
  "show_nat n = (if n < 10 then [digit_char n] else show_nat (n div 10) @ [digit_char (n mod 10)])"
  by pat_completeness auto
termination
  by (relation "measure id") auto

declare show_nat.simps [simp del]

text \<open>The text of an integer-valued number, as a template literal or \<^verbatim>\<open>join\<close> writes it.\<close>

definition show_int :: "int \<Rightarrow> string" where
  "show_int i = (if i < 0 then CHR ''-'' # show_nat (nat (- i)) else show_nat (nat i))"

text \<open>
  \<^verbatim>\<open>Number.prototype.toFixed(f)\<close>: the sign is split off, \<open>n\<close> is the integer nearest to
  \<open>\<bar>x\<bar> \<cdot> 10\<^sup>f\<close> (the larger one at a tie), its digits are padded with zeros to at least
  \<open>f + 1\<close> characters and the point is put before the last \<open>f\<close> of them. (From
  \<open>10\<^sup>2\<^sup>1\<close> on JavaScript writes a number in exponent form; the statistics of scores
  between 0 and 100 stay far below.)
\<close>

definition toFixed :: "nat \<Rightarrow> real \<Rightarrow> string" where
  "toFixed f x =
     (let s = (if x < 0 then ''-'' else '''');
          n = nat \<lfloor>\<bar>x\<bar> * 10 ^ f + 1 / 2\<rfloor>;
          m = show_nat n
      in if f = 0 then s @ m
         else let m' = replicate (f + 1 - length m) CHR ''0'' @ m;
                  k = length m'
              in s @ take (k - f) m' @ ''.'' @ drop (k - f) m')"

definition toFixed_num :: "nat \<Rightarrow> jsnum \<Rightarrow> string" where
  "toFixed_num f v = (case v of NaN \<Rightarrow> ''NaN'' | Fin r \<Rightarrow> toFixed f r)"

text \<open>The value of a digit character, read off the same table as \<open>digit_char\<close>.\<close>

definition digit_val :: "char \<Rightarrow> nat option" where
  "digit_val c = map_of (zip ''0123456789'' [0, 1, 2, 3, 4, 5, 6, 7, 8, 9]) c"

definition is_digit :: "char \<Rightarrow> bool" where
  "is_digit c = (digit_val c \<noteq> None)"

definition digits_value :: "string \<Rightarrow> nat" where
  "digits_value ds = foldl (\<lambda>acc c. acc * 10 + (case digit_val c of Some d \<Rightarrow> d | None \<Rightarrow> 0)) 0 ds"

text \<open>
  \<^verbatim>\<open>parseFloat\<close> on the texts the engine hands it, which are results of \<^verbatim>\<open>toFixed\<close>:
  an optional minus sign, the longest run of digits, and after a point the longest run of
  digits again; whatever follows is ignored, and a text with no digit at its start (such as
  \<^verbatim>\<open>NaN\<close>) gives \<open>NaN\<close>. The result is the double nearest to the decimal number read.
  Leading blanks, a plus sign, exponents and \<^verbatim>\<open>Infinity\<close>, which \<^verbatim>\<open>toFixed\<close> never writes
  for the numbers of this engine, are not modelled.
\<close>

definition parseFloat :: "string \<Rightarrow> jsnum" where
  "parseFloat s =
     (let (neg, r) = (case s of c # t \<Rightarrow> if c = CHR ''-'' then (True, t) else (False, s)
                               | [] \<Rightarrow> (False, s));
          ip = takeWhile is_digit r;
          r' = dropWhile is_digit r;
          fp = (case r' of c # t \<Rightarrow> if c = CHR ''.'' then takeWhile is_digit t else []
                          | [] \<Rightarrow> [])
      in if ip = [] \<and> fp = [] then NaN
         else let v = real (digits_value ip) + real (digits_value fp) / 10 ^ length fp
              in Fin (fl (if neg then - v else v)))"

definition join :: "string \<Rightarrow> string list \<Rightarrow> string" where
  "join sep xs = (case xs of [] \<Rightarrow> [] | y # ys \<Rightarrow> foldl (\<lambda>acc z. acc @ sep @ z) y ys)"


section \<open>The sampler: \<^verbatim>\<open>generateScores\<close>\<close>





section \<open>Descriptive statistics: \<^verbatim>\<open>stats\<close>\<close>

text \<open>
  \<^verbatim>\<open>getMode\<close>: the object \<^verbatim>\<open>frequency\<close> is an association list from rounded score to
  count (its length is the number of keys), threaded through the \<^verbatim>\<open>forEach\<close> together
  with \<^verbatim>\<open>maxFreq\<close> and \<^verbatim>\<open>modes\<close>.
\<close>

type_synonym mode_state = "(int \<times> nat) list \<times> nat \<times> int list"

fun mode_step :: "mode_state \<Rightarrow> real \<Rightarrow> mode_state" where
  "mode_step (frequency, maxFreq, modes) score =
     (let rounded = js_round score;
          c = (case map_of frequency rounded of Some c \<Rightarrow> c | None \<Rightarrow> 0) + 1;
          frequency' = AList.update rounded c frequency
      in if c > maxFreq then (frequency', c, [rounded])
         else if c = maxFreq \<and> rounded \<notin> set modes then (frequency', maxFreq, modes @ [rounded])
         else (frequency', maxFreq, modes))"

definition getMode :: "real list \<Rightarrow> string" where
  "getMode arr =
     (case foldl mode_step ([], 0, []) arr of
        (frequency, maxFreq, modes) \<Rightarrow>
          if length modes = length (map fst frequency) then ''No mode''
          else join '', '' (map show_int modes))"

text \<open>
  The local constants of the memo are functions of the sample here: \<^verbatim>\<open>mean\<close> is
  \<open>mean_value\<close>, \<^verbatim>\<open>variance\<close> is \<open>variance_value\<close>, \<^verbatim>\<open>standardDev\<close> is
  \<open>standardDev_value\<close>; the median and the quartiles, read from the sorted copy at the
  three indices, are \<open>median_value\<close>, \<open>q1_value\<close> and \<open>q3_value\<close>. Each sum of the
  \<^verbatim>\<open>reduce\<close> and the quotient by the length are doubles.
\<close>

definition mean_value :: "real list \<Rightarrow> real" where
  "mean_value scores =
     fl (foldl (\<lambda>acc score. fl (acc + score)) 0 scores / real (length scores))"

text \<open>
  The sum of squared deviations is divided by \<open>n - 1\<close>; the deviation, its square
  (\<^verbatim>\<open>Math.pow\<close> with the exponent 2 gives the rounded product), each sum and the quotient
  are doubles. For a single score that sum is \<open>(score - score)\<^sup>2 = 0\<close> and the divisor is
  0: the quotient is \<open>NaN\<close>.
\<close>

definition variance_value :: "real list \<Rightarrow> jsnum" where
  "variance_value scores =
     (let n = length scores;
          mean = mean_value scores;
          sq = foldl (\<lambda>acc score. fl (acc + fl ((fl (score - mean)) ^ 2))) 0 scores
      in if real n - 1 = 0 then NaN else Fin (fl (sq / (real n - 1))))"

definition standardDev_value :: "real list \<Rightarrow> jsnum" where
  "standardDev_value scores = js_sqrt (variance_value scores)"

definition q1Index :: "nat \<Rightarrow> nat" where
  "q1Index n = nat \<lfloor>real n * 0.25\<rfloor>"

definition medianIndex :: "nat \<Rightarrow> nat" where
  "medianIndex n = nat \<lfloor>real n * 0.5\<rfloor>"

definition q3Index :: "nat \<Rightarrow> nat" where
  "q3Index n = nat \<lfloor>real n * 0.75\<rfloor>"

definition median_value :: "real list \<Rightarrow> real" where
  "median_value scores =
     (let sorted_scores = sort scores; n = length scores
      in if n mod 2 = 0
         then (sorted_scores ! (medianIndex n - 1) + sorted_scores ! medianIndex n) / 2
         else sorted_scores ! medianIndex n)"

definition q1_value :: "real list \<Rightarrow> real" where
  "q1_value scores = sort scores ! q1Index (length scores)"

definition q3_value :: "real list \<Rightarrow> real" where
  "q3_value scores = sort scores ! q3Index (length scores)"

text \<open>
  The record the memo returns; each field but the count is a text. The fields are the
  source's \<^verbatim>\<open>count, mean, median, mode, min, max, range, q1, q3, iqr, standardDev,
  variance\<close>. The empty object \<^verbatim>\<open>{}\<close> of the empty sample is \<open>None\<close>. The median that is
  formatted is a double: a score, or the rounded sum of two scores halved, which is the
  rounded half-sum; so are the two differences.
\<close>

record summary =
  count_s :: nat
  mean_s :: string
  median_s :: string
  mode_s :: string
  min_s :: string
  max_s :: string
  range_s :: string
  q1_s :: string
  q3_s :: string
  iqr_s :: string
  standardDev_s :: string
  variance_s :: string

definition stats :: "real list \<Rightarrow> summary option" where
  "stats scores =
     (if length scores = 0 then None
      else Some \<lparr>
        count_s = length scores,
        mean_s = toFixed 2 (mean_value scores),
        median_s = toFixed 2 (fl (median_value scores)),
        mode_s = getMode scores,
        min_s = toFixed 1 (Min (set scores)),
        max_s = toFixed 1 (Max (set scores)),
        range_s = toFixed 1 (fl (Max (set scores) - Min (set scores))),
        q1_s = toFixed 1 (q1_value scores),
        q3_s = toFixed 1 (q3_value scores),
        iqr_s = toFixed 1 (fl (q3_value scores - q1_value scores)),
        standardDev_s = toFixed_num 2 (standardDev_value scores),
        variance_s = toFixed_num 2 (variance_value scores) \<rparr>)"


section \<open>The histogram: \<^verbatim>\<open>histogramData\<close>\<close>

text \<open>
  A bin has the fields \<^verbatim>\<open>range, count, midpoint\<close> of the source. The loop variable
  \<open>i\<close>, a multiple of 5, is an integer.
\<close>

record histogram_bin =
  bin_range :: string
  bin_count :: nat
  bin_midpoint :: real

abbreviation binSize :: int where
  "binSize \<equiv> 5"

function hist_loop :: "int \<Rightarrow> int \<Rightarrow> real list \<Rightarrow> histogram_bin list" where
  "hist_loop i maxScore scores =
     (if i \<le> maxScore
      then \<lparr> bin_range = show_int i @ ''-'' @ show_int (i + binSize - 1),
             bin_count = length (filter (\<lambda>score. real_of_int i \<le> score
                                              \<and> score < real_of_int (i + binSize)) scores),
             bin_midpoint = real_of_int i + real_of_int binSize / 2 \<rparr>
           # hist_loop (i + binSize) maxScore scores
      else [])"
  by pat_completeness auto
termination
  by (relation "measure (\<lambda>(i, maxScore, scores). nat (maxScore - i + 1))") auto

declare hist_loop.simps [simp del]

definition histogramData :: "real list \<Rightarrow> histogram_bin list" where
  "histogramData scores =
     (if length scores = 0 then []
      else let minScore = \<lfloor>Min (set scores) / real_of_int binSize\<rfloor> * binSize;
               maxScore = \<lceil>Max (set scores) / real_of_int binSize\<rceil> * binSize
           in hist_loop minScore maxScore scores)"



section \<open>The density curve: \<^verbatim>\<open>normalCurveData\<close>\<close>

text \<open>
  A point holds the text \<^verbatim>\<open>x.toFixed(1)\<close>, the number \<open>y\<close> and the flag (the fields
  \<^verbatim>\<open>x, y, belowCutoff\<close> of the source); \<open>len\<close> is \<^verbatim>\<open>scores.length\<close>. Every
  operation of the expression for \<open>y\<close> gives a double; \<^verbatim>\<open>Math.PI\<close> is the double nearest
  to \<open>\<pi>\<close>. The exponential \<^verbatim>\<open>Math.exp\<close>, which the language leaves to the
  implementation, is the parameter \<open>js_exp\<close>. With a spread of 0 the factor
  \<open>1 / (sd \<cdot> \<dots>)\<close> is infinite and the exponential is 0 or \<open>NaN\<close>, so that \<open>y\<close> is
  \<open>NaN\<close>.
\<close>

record density_point =
  pt_x :: string
  pt_y :: jsnum
  pt_belowCutoff :: bool

definition curve_y :: "(real \<Rightarrow> real) \<Rightarrow> real \<Rightarrow> real \<Rightarrow> real \<Rightarrow> jsnum" where
  "curve_y js_exp mean sd x =
     (if sd = 0 then NaN
      else Fin (fl (fl (1 / fl (sd * fl (sqrt (fl (2 * fl pi)))))
                    * js_exp (fl (- 0.5 * fl ((fl (fl (x - mean) / sd)) ^ 2))))))"

definition js_times :: "jsnum \<Rightarrow> real \<Rightarrow> jsnum" where
  "js_times v r = (case v of NaN \<Rightarrow> NaN | Fin a \<Rightarrow> Fin (fl (a * r)))"

text \<open>
  The loop: the bound \<^verbatim>\<open>mean + 4 * sd\<close> is computed at every test, and \<open>x\<close> advances by
  the rounded sum \<^verbatim>\<open>x + 0.5\<close>. For a large \<open>x\<close> that sum is \<open>x\<close> again and the loop does
  not end: the result is \<open>None\<close> then. The point of an iteration stands before the
  points of the iterations that follow it.
\<close>

partial_function (option) curve_loop ::
  "(real \<Rightarrow> real) \<Rightarrow> real \<Rightarrow> real \<Rightarrow> real \<Rightarrow> nat \<Rightarrow> real \<Rightarrow> density_point list option" where
  "curve_loop js_exp x mean sd len cutoffScore =
     (if x \<le> fl (mean + fl (4 * sd))
      then Option.bind (curve_loop js_exp (fl (x + 0.5)) mean sd len cutoffScore)
             (\<lambda>points.
                Some (\<lparr> pt_x = toFixed 1 x,
                        pt_y = js_times (js_times (curve_y js_exp mean sd x) (real len)) 5,
                        pt_belowCutoff = (x \<le> cutoffScore) \<rparr> # points))
      else Some [])"

text \<open>
  The memo reads \<^verbatim>\<open>stats.mean\<close> and \<^verbatim>\<open>stats.standardDev\<close>, the formatted texts, and
  parses them back. With no \<^verbatim>\<open>mean\<close> field (or an empty text) the result is empty; with a
  spread that is not a number the loop condition fails at once.
\<close>

definition normalCurveData ::
  "(real \<Rightarrow> real) \<Rightarrow> summary option \<Rightarrow> nat \<Rightarrow> real \<Rightarrow> density_point list option" where
  "normalCurveData js_exp st len cutoffScore =
     (case st of
        None \<Rightarrow> Some []
      | Some s \<Rightarrow>
          if mean_s s = [] then Some []
          else (case (parseFloat (mean_s s), parseFloat (standardDev_s s)) of
                  (Fin mean, Fin sd) \<Rightarrow>
                    curve_loop js_exp (fl (mean - fl (4 * sd))) mean sd len cutoffScore
                | _ \<Rightarrow> Some []))"

section \<open>The threshold classifier: \<^verbatim>\<open>cutoffStats\<close>\<close>

text \<open>
  A field of the result is a number (the literal 0) or a text made by \<^verbatim>\<open>toFixed\<close>.
  The field \<^verbatim>\<open>at\<close> of the source is \<open>at_cutoff\<close> here. The three counts are local
  constants of the memo. The quotient of a count by the length and its product with 100
  are doubles.
\<close>

datatype jsval = JNum real | JStr string

record cutoff_result =
  below :: jsval
  above :: jsval
  at_cutoff :: jsval

definition below_count :: "real list \<Rightarrow> real \<Rightarrow> nat" where
  "below_count scores cutoffScore = length (filter (\<lambda>score. score < cutoffScore) scores)"

definition above_count :: "real list \<Rightarrow> real \<Rightarrow> nat" where
  "above_count scores cutoffScore = length (filter (\<lambda>score. score > cutoffScore) scores)"

definition at_count :: "real list \<Rightarrow> real \<Rightarrow> nat" where
  "at_count scores cutoffScore = length (filter (\<lambda>score. score = cutoffScore) scores)"

definition cutoffStats :: "real list \<Rightarrow> real \<Rightarrow> cutoff_result" where
  "cutoffStats scores cutoffScore =
     (if length scores = 0 then \<lparr> below = JNum 0, above = JNum 0, at_cutoff = JNum 0 \<rparr>
      else \<lparr> below = JStr (toFixed 1 (fl (fl (real (below_count scores cutoffScore) / real (length scores)) * 100))),
             above = JStr (toFixed 1 (fl (fl (real (above_count scores cutoffScore) / real (length scores)) * 100))),
             at_cutoff = JStr (toFixed 1 (fl (fl (real (at_count scores cutoffScore) / real (length scores)) * 100))) \<rparr>)"


section \<open>Notions used to state the properties\<close>

text \<open>
  A percentage as the classifier's description words it: the count divided by the total,
  times 100, rounded to one decimal, all in exact arithmetic. With a total of 0 (and so a
  count of 0) the quotient \<open>0 / 0\<close> is not a number.
\<close>

definition percent_text :: "nat \<Rightarrow> nat \<Rightarrow> string" where
  "percent_text cnt len =
     toFixed_num 1 (if len = 0 then NaN else Fin (real cnt / real len * 100))"

text \<open>
  The number that a decimal text denotes: after an optional minus sign, digits, and
  possibly a point and more digits; it is the integer that all the digits write, divided
  by ten to the number of digits after the point. Then: the field is a text that denotes a
  number of one decimal (ten times it is an integer) at most \<open>tol\<close> away from \<open>v\<close>.
\<close>

definition decimal_value :: "string \<Rightarrow> real option" where
  "decimal_value s =
     (let negative = (take 1 s = ''-'');
          body = (if negative then drop 1 s else s);
          whole = takeWhile (\<lambda>c. c \<noteq> CHR ''.'') body;
          fraction = drop 1 (dropWhile (\<lambda>c. c \<noteq> CHR ''.'') body)
      in if whole \<noteq> [] \<and> list_all is_digit whole \<and> list_all is_digit fraction
         then Some ((if negative then - 1 else 1)
                    * real (digits_value (whole @ fraction)) / 10 ^ length fraction)
         else None)"

definition tenth_near :: "real \<Rightarrow> jsval \<Rightarrow> real \<Rightarrow> bool" where
  "tenth_near tol field v =
     (case field of
        JNum _ \<Rightarrow> False
      | JStr s \<Rightarrow>
          (case decimal_value s of
             None \<Rightarrow> False
           | Some d \<Rightarrow> d * 10 = real_of_int \<lfloor>d * 10\<rfloor> \<and> \<bar>d - v\<bar> \<le> tol))"

text \<open>
  A score lies in the interval of a bin: the five units around the bin's midpoint, the
  lower end included.
\<close>

definition bin_holds :: "histogram_bin \<Rightarrow> real \<Rightarrow> bool" where
  "bin_holds b score =
     (bin_midpoint b - 5 / 2 \<le> score \<and> score < bin_midpoint b + 5 / 2)"

text \<open>
  For the mode: the integer nearest to a number (the upper one of two equally near), the
  texts of a list joined by a comma and a blank, and the integer that a decimal text
  denotes; then the distinct values of a list in the order in which they are first met,
  whether all values of a list occur equally often, and the values that occur most often,
  in the order in which they are first met.
\<close>

definition nearest_integer :: "real \<Rightarrow> int" where
  "nearest_integer x = (if x - real_of_int \<lfloor>x\<rfloor> < 1 / 2 then \<lfloor>x\<rfloor> else \<lfloor>x\<rfloor> + 1)"

fun comma_joined :: "string list \<Rightarrow> string" where
  "comma_joined [] = []"
| "comma_joined [s] = s"
| "comma_joined (s # t # ts) = s @ '', '' @ comma_joined (t # ts)"

definition int_of_text :: "string \<Rightarrow> int option" where
  "int_of_text s =
     (case s of
        [] \<Rightarrow> None
      | c # t \<Rightarrow>
          if c = CHR ''-''
          then (if t \<noteq> [] \<and> list_all is_digit t then Some (- int (digits_value t)) else None)
          else (if list_all is_digit s then Some (int (digits_value s)) else None))"

definition first_seen :: "'a list \<Rightarrow> 'a list" where
  "first_seen xs = foldl (\<lambda>acc x. if x \<in> set acc then acc else acc @ [x]) [] xs"

definition same_frequency :: "int list \<Rightarrow> bool" where
  "same_frequency rs = (\<forall>v \<in> set rs. \<forall>w \<in> set rs. count_list rs v = count_list rs w)"

definition most_frequent :: "int list \<Rightarrow> int list" where
  "most_frequent rs =
     filter (\<lambda>v. \<forall>w \<in> set rs. count_list rs w \<le> count_list rs v) (first_seen rs)"

text \<open>
  For the density curve: the number of \<open>f\<close> decimals that the text \<open>toFixed f x\<close> denotes;
  the Gaussian density; the mean and the standard deviation of a sample in full precision,
  on the exact reals (the latter for a sample of at least two scores); the double that a
  decimal text is read as; the scaled density at a mean and a spread that may be missing,
  which is not a number when one of them is missing or the spread is 0; and two numbers
  that are both not a number, or agree up to the relative error \<open>2\<^sup>-\<^sup>4\<^sup>0\<close> (the double
  operations of the curve's expression round some twenty times, each by at most
  \<open>2\<^sup>-\<^sup>5\<^sup>3\<close>). An exponential function is accurate when its relative error is at most
  \<open>2\<^sup>-\<^sup>5\<^sup>2\<close>, the size of the last binary digit of a double.
\<close>

definition round_fixed :: "nat \<Rightarrow> real \<Rightarrow> real" where
  "round_fixed f x =
     (if x < 0 then - 1 else 1) * real (nat \<lfloor>\<bar>x\<bar> * 10 ^ f + 1 / 2\<rfloor>) / 10 ^ f"

definition gauss_density :: "real \<Rightarrow> real \<Rightarrow> real \<Rightarrow> real" where
  "gauss_density mean sd x = (1 / (sd * sqrt (2 * pi))) * exp (- 0.5 * ((x - mean) / sd) ^ 2)"

definition mean_real :: "real list \<Rightarrow> real" where
  "mean_real scores = sum_list scores / real (length scores)"

definition sd_real :: "real list \<Rightarrow> real" where
  "sd_real scores =
     sqrt (sum_list (map (\<lambda>score. (score - mean_real scores) ^ 2) scores)
           / (real (length scores) - 1))"

definition text_double :: "string \<Rightarrow> real option" where
  "text_double s = map_option fl (decimal_value s)"

definition scaled_density :: "nat \<Rightarrow> real option \<Rightarrow> real option \<Rightarrow> real \<Rightarrow> jsnum" where
  "scaled_density len mean sd x =
     (case (mean, sd) of
        (Some m, Some s) \<Rightarrow> if s = 0 then NaN else Fin (real len * 5 * gauss_density m s x)
      | _ \<Rightarrow> NaN)"

definition close_num :: "jsnum \<Rightarrow> jsnum \<Rightarrow> bool" where
  "close_num a b =
     (case (a, b) of
        (Fin v, Fin w) \<Rightarrow> \<bar>v - w\<bar> \<le> \<bar>w\<bar> / 2 ^ 40
      | (NaN, NaN) \<Rightarrow> True
      | _ \<Rightarrow> False)"

definition accurate_exp :: "(real \<Rightarrow> real) \<Rightarrow> bool" where
  "accurate_exp f = (\<forall>t. \<bar>f t - exp t\<bar> \<le> exp t / 2 ^ 52)"


section \<open>Auxiliary notions of the proofs\<close>

text \<open>The end of the last bin that \<open>hist_loop\<close> makes when it starts at \<open>i\<close>.\<close>

definition hist_upper :: "int \<Rightarrow> int \<Rightarrow> int" where
  "hist_upper i m = (if i \<le> m then i + 5 * ((m - i) div 5 + 1) else i)"

text \<open>
  What holds of the state of \<^verbatim>\<open>getMode\<close> after the rounded values \<open>rs\<close> have been
  tallied: the keys are the values met, each with its number of occurrences; \<open>maxFreq\<close>
  is the largest of these numbers; \<open>modes\<close> lists, without repetition, the values that
  reach it, and in ascending order when the values came in ascending order.
\<close>

definition mode_inv :: "int list \<Rightarrow> mode_state \<Rightarrow> bool" where
  "mode_inv rs st =
     (case st of (frequency, maxFreq, modes) \<Rightarrow>
        distinct (map fst frequency) \<and> fst ` set frequency = set rs
        \<and> (\<forall>v \<in> set rs. map_of frequency v = Some (count_list rs v))
        \<and> (\<forall>v. count_list rs v \<le> maxFreq)
        \<and> (rs = [] \<longrightarrow> maxFreq = 0)
        \<and> (rs \<noteq> [] \<longrightarrow> (\<exists>v \<in> set rs. count_list rs v = maxFreq))
        \<and> distinct modes
        \<and> set modes = {v \<in> set rs. count_list rs v = maxFreq}
        \<and> (sorted rs \<longrightarrow> sorted modes))"

text \<open>
  The number \<open>a\<close> is \<open>b\<close> up to \<open>k\<close> roundings: \<open>a = b \<cdot> e\<^sup>\<theta>\<close> with
  \<open>\<bar>\<theta>\<bar> \<le> k / 2\<^sup>5\<^sup>2\<close>.
\<close>

definition approx :: "nat \<Rightarrow> real \<Rightarrow> real \<Rightarrow> bool" where
  "approx k a b = (\<exists>\<theta>. \<bar>\<theta>\<bar> \<le> real k / 2 ^ 52 \<and> a = b * exp \<theta>)"


section \<open>Evaluation helpers\<close>

text \<open>The recursion of \<open>show_nat\<close> is unfolded on numerals only.\<close>

lemma show_nat_numeral:
  "show_nat (numeral k) = (if (numeral k :: nat) < 10 then [digit_char (numeral k)]
     else show_nat (numeral k div 10) @ [digit_char (numeral k mod 10)])"
  by (rule show_nat.simps)

lemma show_nat_0: "show_nat 0 = ''0''"
  by (simp add: show_nat.simps [of 0] digit_char_def)

lemma show_nat_1: "show_nat (Suc 0) = ''1''"
  by (simp add: show_nat.simps [of "Suc 0"] digit_char_def)

lemmas show_eval = show_int_def show_nat_numeral show_nat_0 show_nat_1 digit_char_def


section \<open>Rounding to a double\<close>

lemma pow2_powr: "pow2 k = 2 powr real_of_int k"
proof (cases "0 \<le> k")
  case True
  then obtain n where n: "k = int n" using nonneg_int_cases by blast
  show ?thesis by (simp add: pow2_def n powr_realpow)
next
  case False
  then obtain n where n: "k = - int n" by (metis int_cases2 of_nat_0_le_iff)
  have "2 powr real_of_int k = 1 / 2 powr real n" by (simp add: n powr_minus_divide)
  also have "\<dots> = 1 / 2 ^ n" by (simp add: powr_realpow)
  finally show ?thesis using False by (simp add: pow2_def n)
qed

lemma pow2_pos [simp]: "0 < pow2 k" by (simp add: pow2_powr)
lemma pow2_nonneg [simp]: "0 \<le> pow2 k" by (simp add: pow2_powr)
lemma pow2_ne0 [simp]: "pow2 k \<noteq> 0" by (simp add: pow2_powr)
lemma pow2_add: "pow2 (j + k) = pow2 j * pow2 k" by (simp add: pow2_powr powr_add)
lemma pow2_0 [simp]: "pow2 0 = 1" by (simp add: pow2_powr)
lemma pow2_inv: "pow2 (- k) = 1 / pow2 k" by (simp add: pow2_powr powr_minus_divide)
lemma pow2_cancel [simp]: "pow2 k * pow2 (- k) = 1" "pow2 (- k) * pow2 k = 1"
  by (simp_all add: pow2_inv)
lemma pow2_diff_cancel [simp]: "pow2 (a - b) * pow2 (b - a) = 1"
  using pow2_add [of "a - b" "b - a"] by simp
lemma pow2_mono: "j \<le> k \<Longrightarrow> pow2 j \<le> pow2 k" by (simp add: pow2_powr)
lemma pow2_less: "j < k \<Longrightarrow> pow2 j < pow2 k" by (simp add: pow2_powr)
lemma pow2_nat: "pow2 (int n) = 2 ^ n" by (simp add: pow2_powr powr_realpow)
lemma pow2_numeral: "pow2 (numeral n) = 2 ^ numeral n"
  using pow2_nat [of "numeral n"] by simp
lemma pow2_neg_numeral: "pow2 (- numeral n) = 1 / 2 ^ numeral n"
  by (simp add: pow2_inv pow2_numeral)
lemma pow2_1 [simp]: "pow2 1 = 2" using pow2_nat [of 1] by simp
lemma pow2_Suc: "pow2 (k + 1) = 2 * pow2 k" by (simp add: pow2_add)

lemma binade_bounds:
  assumes "x \<noteq> 0"
  shows "pow2 (binade x) \<le> \<bar>x\<bar>" "\<bar>x\<bar> < 2 * pow2 (binade x)"
proof -
  have "pow2 (binade x) \<le> \<bar>x\<bar> \<and> \<bar>x\<bar> < 2 * pow2 (binade x)"
  proof (cases "1 \<le> \<bar>x\<bar>")
    case True
    define m where "m = nat \<lfloor>\<bar>x\<bar>\<rfloor>"
    have m0: "0 < m" using True by (simp add: m_def)
    define c where "c = floorlog 2 m"
    have c0: "0 < c" using m0 by (simp add: c_def floorlog_def)
    have b: "2 ^ (c - 1) \<le> m" "m < 2 ^ c"
      using floorlog_bounds [of m 2] m0 by (simp_all add: c_def)
    have e: "binade x = int (c - 1)" using True c0 by (simp add: binade_def c_def m_def)
    have p1: "pow2 (binade x) = 2 ^ (c - 1)" by (simp add: e pow2_def)
    have p2: "2 * pow2 (binade x) = 2 ^ c"
      using c0 by (simp add: p1 power_eq_if)
    have mx: "real m \<le> \<bar>x\<bar>" "\<bar>x\<bar> < real m + 1"
    proof -
      have "real m = real_of_int \<lfloor>\<bar>x\<bar>\<rfloor>" using True by (simp add: m_def)
      then show "real m \<le> \<bar>x\<bar>" "\<bar>x\<bar> < real m + 1" by linarith+
    qed
    have "(2::real) ^ (c - 1) \<le> real m" using b(1) by (metis of_nat_le_iff of_nat_numeral of_nat_power)
    moreover have "real m + 1 \<le> 2 ^ c"
    proof -
      have "m + 1 \<le> 2 ^ c" using b(2) by simp
      then have "real (m + 1) \<le> real (2 ^ c)" by (rule iffD2 [OF of_nat_le_iff])
      then show ?thesis by simp
    qed
    ultimately have "2 ^ (c - 1) \<le> \<bar>x\<bar> \<and> \<bar>x\<bar> < 2 ^ c" using mx by linarith
    then show ?thesis using p1 p2 by simp
  next
    case False
    define y where "y = 1 / \<bar>x\<bar>"
    have x0: "0 < \<bar>x\<bar>" using assms by simp
    have y1: "1 < y" using False x0 by (simp add: y_def)
    define m where "m = nat (\<lceil>y\<rceil> - 1)"
    have cy: "2 \<le> \<lceil>y\<rceil>" using y1 by linarith
    have m0: "0 < m" using cy by (simp add: m_def)
    have my: "real m < y" "y \<le> real m + 1"
    proof -
      have "real m = real_of_int \<lceil>y\<rceil> - 1" using cy by (simp add: m_def)
      then show "real m < y" "y \<le> real m + 1" by linarith+
    qed
    define c where "c = floorlog 2 m"
    have c0: "0 < c" using m0 by (simp add: c_def floorlog_def)
    have b: "2 ^ (c - 1) \<le> m" "m < 2 ^ c"
      using floorlog_bounds [of m 2] m0 by (simp_all add: c_def)
    have e: "binade x = - int c" using False by (simp add: binade_def c_def m_def y_def)
    have p1: "pow2 (binade x) = 1 / 2 ^ c" using c0 by (simp add: e pow2_def)
    have p2: "2 * pow2 (binade x) = 1 / 2 ^ (c - 1)"
      using c0 by (simp add: p1 power_eq_if)
    have r1: "(2::real) ^ (c - 1) \<le> real m" using b(1) by (metis of_nat_le_iff of_nat_numeral of_nat_power)
    have r2: "real m + 1 \<le> 2 ^ c"
    proof -
      have "m + 1 \<le> 2 ^ c" using b(2) by simp
      then have "real (m + 1) \<le> real (2 ^ c)" by (rule iffD2 [OF of_nat_le_iff])
      then show ?thesis by simp
    qed
    have u: "y \<le> 2 ^ c" using my r2 by linarith
    have l: "2 ^ (c - 1) < y" using my r1 by linarith
    have xy: "\<bar>x\<bar> = 1 / y" using x0 by (simp add: y_def)
    have "1 / 2 ^ c \<le> 1 / y" using u y1 by (simp add: frac_le)
    moreover have "1 / y < 1 / 2 ^ (c - 1)" using l by (simp add: frac_less2)
    ultimately have "1 / 2 ^ c \<le> \<bar>x\<bar> \<and> \<bar>x\<bar> < 1 / 2 ^ (c - 1)" using xy by simp
    then show ?thesis using p1 p2 by simp
  qed
  then show "pow2 (binade x) \<le> \<bar>x\<bar>" "\<bar>x\<bar> < 2 * pow2 (binade x)" by simp_all
qed

lemma binade_eqI:
  assumes "pow2 e \<le> \<bar>x\<bar>" "\<bar>x\<bar> < 2 * pow2 e"
  shows "binade x = e"
proof -
  have "0 < \<bar>x\<bar>" using assms(1) pow2_pos [of e] by linarith
  then have x0: "x \<noteq> 0" by auto
  note b = binade_bounds [OF x0]
  have "\<not> binade x < e"
  proof
    assume "binade x < e"
    then have "pow2 (binade x + 1) \<le> pow2 e" by (intro pow2_mono) simp
    then show False using b(2) assms(1) by (simp add: pow2_Suc)
  qed
  moreover have "\<not> e < binade x"
  proof
    assume "e < binade x"
    then have "pow2 (e + 1) \<le> pow2 (binade x)" by (intro pow2_mono) simp
    then show False using b(1) assms(2) by (simp add: pow2_Suc)
  qed
  ultimately show ?thesis by linarith
qed

lemma round_even_close: "\<bar>real_of_int (round_even y) - y\<bar> \<le> 1 / 2"
  unfolding round_even_def Let_def by (auto; linarith)

lemma round_even_int [simp]: "round_even (real_of_int k) = k"
  by (simp add: round_even_def)

lemma round_even_mono:
  assumes "y \<le> z"
  shows "round_even y \<le> round_even z"
proof (cases "\<lfloor>y\<rfloor> = \<lfloor>z\<rfloor>")
  case True
  then show ?thesis using assms unfolding round_even_def Let_def by (auto; linarith)
next
  case False
  then have "\<lfloor>y\<rfloor> < \<lfloor>z\<rfloor>" using assms floor_mono [of y z] by linarith
  then have "\<lfloor>y\<rfloor> + 1 \<le> \<lfloor>z\<rfloor>" by simp
  moreover have "round_even y \<le> \<lfloor>y\<rfloor> + 1" unfolding round_even_def Let_def by auto
  moreover have "\<lfloor>z\<rfloor> \<le> round_even z" unfolding round_even_def Let_def by auto
  ultimately show ?thesis by linarith
qed


lemma round_even_0 [simp]: "round_even 0 = 0"
  using round_even_int [of 0] by simp

lemma round_even_nonneg: "0 \<le> y \<Longrightarrow> 0 \<le> round_even y"
  using round_even_mono [of 0 y] by simp

lemma round_even_pow2: "0 \<le> k \<Longrightarrow> real_of_int (round_even (pow2 k)) = pow2 k"
proof -
  assume "0 \<le> k"
  then obtain n where n: "k = int n" using nonneg_int_cases by blast
  have "pow2 k = real_of_int (2 ^ n)" by (simp add: n pow2_nat)
  then show ?thesis by (simp only: round_even_int)
qed

lemma pow2_split: "pow2 a * pow2 (b - a) = pow2 b"
  using pow2_add [of a "b - a"] by simp

lemma binade_minus [simp]: "binade (- x) = binade x"
  by (simp add: binade_def)

lemma fl_0 [simp]: "fl 0 = 0"
  by (simp add: fl_def)

lemma fl_minus: "fl (- x) = - fl x"
  by (simp add: fl_def sgn_minus)

lemma fl_eval:
  assumes "pow2 e \<le> \<bar>x\<bar>" "\<bar>x\<bar> < 2 * pow2 e"
  shows "fl x = sgn x * real_of_int (round_even (\<bar>x\<bar> * pow2 (52 - e))) * pow2 (e - 52)"
proof -
  have "0 < \<bar>x\<bar>" using assms(1) pow2_pos [of e] by linarith
  then have "x \<noteq> 0" by simp
  then show ?thesis using binade_eqI [OF assms] by (simp add: fl_def)
qed

lemma scaled_range:
  assumes "x \<noteq> 0"
  shows "pow2 52 \<le> \<bar>x\<bar> * pow2 (52 - binade x)" "\<bar>x\<bar> * pow2 (52 - binade x) < pow2 53"
proof -
  let ?e = "binade x"
  have p: "pow2 ?e * pow2 (52 - ?e) = pow2 52" by (rule pow2_split)
  have q: "(2 * pow2 ?e) * pow2 (52 - ?e) = pow2 53"
  proof -
    have "(2 * pow2 ?e) * pow2 (52 - ?e) = 2 * (pow2 ?e * pow2 (52 - ?e))" by simp
    also have "\<dots> = 2 * pow2 52" by (simp only: p)
    also have "\<dots> = pow2 (52 + 1)" by (simp only: pow2_Suc)
    finally show ?thesis by simp
  qed
  have "pow2 ?e * pow2 (52 - ?e) \<le> \<bar>x\<bar> * pow2 (52 - ?e)"
    using binade_bounds(1) [OF assms] by (intro mult_right_mono) simp_all
  then show "pow2 52 \<le> \<bar>x\<bar> * pow2 (52 - ?e)" by (simp only: p)
  have "\<bar>x\<bar> * pow2 (52 - ?e) < (2 * pow2 ?e) * pow2 (52 - ?e)"
    using binade_bounds(2) [OF assms] by (intro mult_strict_right_mono) simp_all
  then show "\<bar>x\<bar> * pow2 (52 - ?e) < pow2 53" by (simp only: q)
qed

lemma unscale: "y * pow2 (52 - e) * pow2 (e - 52) = y"
proof -
  have "pow2 (52 - e) * pow2 (e - 52) = 1" by (rule pow2_diff_cancel)
  then show ?thesis by (simp add: mult.assoc)
qed

lemma fl_error: "\<bar>fl x - x\<bar> \<le> \<bar>x\<bar> / 2 ^ 53"
proof (cases "x = 0")
  case True
  then show ?thesis by simp
next
  case False
  let ?e = "binade x" and ?y = "\<bar>x\<bar> * pow2 (52 - binade x)"
  define q where "q = pow2 (?e - 52)"
  define r where "r = real_of_int (round_even ?y)"
  have q: "0 < q" by (simp add: q_def)
  have "?y * q = \<bar>x\<bar>" unfolding q_def by (rule unscale)
  then have x: "x = sgn x * (?y * q)" by (simp only: mult_sgn_abs)
  have f: "fl x = sgn x * (r * q)"
    using False by (simp add: fl_def r_def q_def mult.assoc)
  have "fl x - x = sgn x * ((r - ?y) * q)"
    by (subst x, subst f) (simp add: algebra_simps)
  then have "\<bar>fl x - x\<bar> = \<bar>r - ?y\<bar> * q"
    using False q by (simp add: abs_mult abs_sgn_eq)
  also have "\<dots> \<le> 1 / 2 * q"
    unfolding r_def using q by (intro mult_right_mono round_even_close) simp
  also have "1 / 2 * q = pow2 ?e / 2 ^ 53"
  proof -
    have "pow2 ?e = pow2 52 * q" unfolding q_def using pow2_split [of 52 ?e] by simp
    then show ?thesis by (simp add: pow2_numeral)
  qed
  also have "\<dots> \<le> \<bar>x\<bar> / 2 ^ 53"
    using binade_bounds(1) [OF False] by (simp add: divide_right_mono)
  finally show ?thesis .
qed

lemma fl_pos_bounds:
  assumes "0 < x"
  shows "pow2 (binade x) \<le> fl x" "fl x \<le> 2 * pow2 (binade x)"
proof -
  let ?e = "binade x" and ?y = "\<bar>x\<bar> * pow2 (52 - binade x)"
  define q where "q = pow2 (?e - 52)"
  define r where "r = real_of_int (round_even ?y)"
  have q: "0 \<le> q" by (simp add: q_def)
  have x0: "x \<noteq> 0" using assms by simp
  have f: "fl x = r * q"
    using assms by (simp add: fl_def r_def q_def)
  have "round_even (pow2 52) \<le> round_even ?y"
    by (rule round_even_mono [OF scaled_range(1) [OF x0]])
  then have "real_of_int (round_even (pow2 52)) \<le> r" unfolding r_def by (simp only: of_int_le_iff)
  then have lo: "pow2 52 \<le> r" by (simp add: round_even_pow2)
  have "round_even ?y \<le> round_even (pow2 53)"
    by (rule round_even_mono [OF less_imp_le [OF scaled_range(2) [OF x0]]])
  then have "r \<le> real_of_int (round_even (pow2 53))" unfolding r_def by (simp only: of_int_le_iff)
  then have hi: "r \<le> pow2 53" by (simp add: round_even_pow2)
  have p: "pow2 52 * q = pow2 ?e" unfolding q_def by (rule pow2_split)
  have p': "pow2 53 * q = 2 * pow2 ?e"
  proof -
    have "pow2 53 = 2 * pow2 52" using pow2_Suc [of 52] by simp
    then show ?thesis using p by simp
  qed
  have "pow2 52 * q \<le> r * q" using lo q by (rule mult_right_mono)
  then show "pow2 ?e \<le> fl x" by (simp only: p f)
  have "r * q \<le> pow2 53 * q" using hi q by (rule mult_right_mono)
  then show "fl x \<le> 2 * pow2 ?e" by (simp only: p' f)
qed

lemma fl_nonneg:
  assumes "0 \<le> x"
  shows "0 \<le> fl x"
proof (cases "x = 0")
  case True
  then show ?thesis by simp
next
  case False
  then have "0 < x" using assms by simp
  then have "pow2 (binade x) \<le> fl x" by (rule fl_pos_bounds)
  then show ?thesis using pow2_pos [of "binade x"] by linarith
qed

lemma fl_pos: "0 < x \<Longrightarrow> 0 < fl x"
  using fl_pos_bounds(1) [of x] pow2_pos [of "binade x"] by linarith

lemma binade_mono:
  assumes "0 < x" "x \<le> y"
  shows "binade x \<le> binade y"
proof (rule ccontr)
  assume "\<not> binade x \<le> binade y"
  then have "pow2 (binade y + 1) \<le> pow2 (binade x)" by (intro pow2_mono) simp
  moreover have "\<bar>y\<bar> < 2 * pow2 (binade y)" using binade_bounds(2) [of y] assms by simp
  moreover have "pow2 (binade x) \<le> \<bar>x\<bar>" using binade_bounds(1) [of x] assms by simp
  ultimately show False using assms by (simp add: pow2_Suc)
qed

lemma fl_mono_pos:
  assumes "0 < x" "x \<le> y"
  shows "fl x \<le> fl y"
proof (cases "binade x = binade y")
  case True
  have "round_even (\<bar>x\<bar> * pow2 (52 - binade y)) \<le> round_even (\<bar>y\<bar> * pow2 (52 - binade y))"
    using assms by (intro round_even_mono mult_right_mono) simp_all
  then have "real_of_int (round_even (\<bar>x\<bar> * pow2 (52 - binade y))) * pow2 (binade y - 52)
      \<le> real_of_int (round_even (\<bar>y\<bar> * pow2 (52 - binade y))) * pow2 (binade y - 52)"
    by (intro mult_right_mono) simp_all
  then show ?thesis using assms True by (simp add: fl_def)
next
  case False
  then have "binade x + 1 \<le> binade y" using binade_mono [OF assms] by simp
  then have "pow2 (binade x + 1) \<le> pow2 (binade y)" by (rule pow2_mono)
  then have "2 * pow2 (binade x) \<le> pow2 (binade y)" by (simp add: pow2_Suc)
  moreover have "fl x \<le> 2 * pow2 (binade x)" using assms by (intro fl_pos_bounds) simp
  moreover have "pow2 (binade y) \<le> fl y" using assms by (intro fl_pos_bounds) simp
  ultimately show ?thesis by linarith
qed

lemma fl_mono:
  assumes "x \<le> y"
  shows "fl x \<le> fl y"
proof -
  consider "0 < x" | "x \<le> 0" "0 \<le> y" | "y < 0" by linarith
  then show ?thesis
  proof cases
    case 1
    then show ?thesis using assms by (rule fl_mono_pos)
  next
    case 2
    then have "0 \<le> fl (- x)" by (intro fl_nonneg) simp
    then have "fl x \<le> 0" by (simp add: fl_minus)
    moreover have "0 \<le> fl y" using 2 by (intro fl_nonneg)
    ultimately show ?thesis by linarith
  next
    case 3
    then have "fl (- y) \<le> fl (- x)" using assms by (intro fl_mono_pos) simp_all
    then show ?thesis by (simp add: fl_minus)
  qed
qed

lemma binade_scale:
  assumes "x \<noteq> 0"
  shows "binade (x * pow2 j) = binade x + j"
proof (rule binade_eqI)
  have a: "\<bar>x * pow2 j\<bar> = \<bar>x\<bar> * pow2 j" by (simp add: abs_mult)
  have "pow2 (binade x) * pow2 j \<le> \<bar>x\<bar> * pow2 j"
    using binade_bounds(1) [OF assms] by (intro mult_right_mono) simp_all
  then show "pow2 (binade x + j) \<le> \<bar>x * pow2 j\<bar>" by (simp only: a pow2_add)
  have "\<bar>x\<bar> * pow2 j < (2 * pow2 (binade x)) * pow2 j"
    using binade_bounds(2) [OF assms] by (intro mult_strict_right_mono) simp_all
  then show "\<bar>x * pow2 j\<bar> < 2 * pow2 (binade x + j)" by (simp only: a pow2_add mult.assoc)
qed

lemma fl_scale: "fl (x * pow2 j) = fl x * pow2 j"
proof (cases "x = 0")
  case True
  then show ?thesis by simp
next
  case False
  have a: "\<bar>x * pow2 j\<bar> * pow2 (52 - (binade x + j)) = \<bar>x\<bar> * pow2 (52 - binade x)"
  proof -
    have e: "52 - (binade x + j) = 52 - binade x - j" by simp
    have p: "\<bar>pow2 j\<bar> = pow2 j" by simp
    have "\<bar>x * pow2 j\<bar> * pow2 (52 - (binade x + j))
        = \<bar>x\<bar> * (pow2 j * pow2 (52 - binade x - j))"
      by (simp only: e abs_mult p mult.assoc)
    also have "\<dots> = \<bar>x\<bar> * pow2 (52 - binade x)" by (simp only: pow2_split)
    finally show ?thesis .
  qed
  have b: "pow2 (binade x + j - 52) = pow2 (binade x - 52) * pow2 j"
    using pow2_add [of "binade x - 52" j] by (simp add: algebra_simps)
  have "fl (x * pow2 j) = sgn (x * pow2 j)
      * real_of_int (round_even (\<bar>x * pow2 j\<bar> * pow2 (52 - (binade x + j))))
      * pow2 (binade x + j - 52)"
    using False by (simp add: fl_def binade_scale)
  also have "\<dots> = sgn x * real_of_int (round_even (\<bar>x\<bar> * pow2 (52 - binade x)))
      * (pow2 (binade x - 52) * pow2 j)"
    by (simp only: a b) (simp add: sgn_mult)
  also have "\<dots> = fl x * pow2 j" using False by (simp add: fl_def)
  finally show ?thesis .
qed

lemma fl_fixed:
  assumes "x \<noteq> 0" and "\<bar>x\<bar> * pow2 (52 - binade x) = real_of_int k"
  shows "fl x = x"
proof -
  have "real_of_int (round_even (\<bar>x\<bar> * pow2 (52 - binade x))) = \<bar>x\<bar> * pow2 (52 - binade x)"
    unfolding assms(2) by simp
  then have "fl x = sgn x * (\<bar>x\<bar> * pow2 (52 - binade x)) * pow2 (binade x - 52)"
    using assms(1) by (simp add: fl_def)
  also have "\<dots> = sgn x * (\<bar>x\<bar> * pow2 (52 - binade x) * pow2 (binade x - 52))"
    by (simp add: mult.assoc)
  also have "\<dots> = sgn x * \<bar>x\<bar>" by (simp only: unscale)
  finally show ?thesis by (simp add: mult_sgn_abs)
qed

lemma fl_int:
  assumes "\<bar>k\<bar> \<le> 2 ^ 53"
  shows "fl (real_of_int k) = real_of_int k"
proof (cases "k = 0")
  case True
  then show ?thesis by simp
next
  case False
  let ?x = "real_of_int k" and ?e = "binade (real_of_int k)"
  have x0: "?x \<noteq> 0" using False by simp
  have kle: "\<bar>?x\<bar> \<le> pow2 53"
  proof -
    have "real_of_int \<bar>k\<bar> \<le> real_of_int (2 ^ 53)" using assms by (simp only: of_int_le_iff)
    then show ?thesis by (simp add: pow2_numeral)
  qed
  have "pow2 ?e \<le> pow2 53" using binade_bounds(1) [OF x0] kle by linarith
  then have e: "?e \<le> 53"
    using pow2_less [of 53 ?e] by (cases "?e \<le> 53") auto
  show ?thesis
  proof (cases "?e \<le> 52")
    case True
    then obtain n where n: "52 - ?e = int n" using nonneg_int_cases [of "52 - ?e"] by auto
    have "\<bar>?x\<bar> * pow2 (52 - ?e) = real_of_int (\<bar>k\<bar> * 2 ^ n)"
      by (simp add: n pow2_nat)
    then show ?thesis by (rule fl_fixed [OF x0])
  next
    case False
    then have e53: "?e = 53" using e by simp
    have "pow2 53 \<le> \<bar>?x\<bar>" using binade_bounds(1) [OF x0] by (simp only: e53)
    then have eq: "\<bar>?x\<bar> = pow2 53" using kle by simp
    have "\<bar>?x\<bar> * pow2 (52 - ?e) = pow2 53 * pow2 (52 - 53)" by (simp only: eq e53)
    also have "\<dots> = pow2 52" by (rule pow2_split)
    also have "\<dots> = real_of_int (2 ^ 52)" by (simp add: pow2_numeral)
    finally show ?thesis by (rule fl_fixed [OF x0])
  qed
qed

lemma fl_one [simp]: "fl 1 = 1"
  using fl_int [of 1] by simp

lemma fl_numeral [simp]: "(numeral k :: int) \<le> 2 ^ 53 \<Longrightarrow> fl (numeral k) = numeral k"
  using fl_int [of "numeral k"] by simp

lemma fl_neg_numeral [simp]:
  "(numeral k :: int) \<le> 2 ^ 53 \<Longrightarrow> fl (- numeral k) = - numeral k"
  by (simp add: fl_minus)

section \<open>Formatting a number and parsing it back\<close>

lemma digit_table: "\<forall>k \<in> set [0..<10]. digit_val (''0123456789'' ! k) = Some k"
  by code_simp

lemma digit_val_digit_char: "digit_val (digit_char d) = Some (d mod 10)"
proof -
  have "d mod 10 \<in> set [0..<10]" by simp
  then show ?thesis using digit_table unfolding digit_char_def by blast
qed

lemma is_digit_digit_char: "is_digit (digit_char d)"
  by (simp add: is_digit_def digit_val_digit_char)

lemma not_digit_point: "\<not> is_digit CHR ''.''" and not_digit_minus: "\<not> is_digit CHR ''-''"
  by (simp_all add: is_digit_def digit_val_def)

lemma is_digit_zero: "is_digit CHR ''0''"
  by (simp add: is_digit_def digit_val_def)

lemma show_nat_digits: "\<forall>c \<in> set (show_nat n). is_digit c"
proof (induction n rule: show_nat.induct)
  case (1 n)
  show ?case
  proof (cases "n < 10")
    case True
    then show ?thesis by (subst show_nat.simps) (simp add: is_digit_digit_char)
  next
    case False
    then show ?thesis using "1.IH" by (subst show_nat.simps) (simp add: is_digit_digit_char)
  qed
qed

lemma show_nat_nonempty: "show_nat n \<noteq> []"
  by (subst show_nat.simps) simp

lemma digits_value_snoc:
  "digits_value (ds @ [c]) = digits_value ds * 10 + (case digit_val c of Some d \<Rightarrow> d | None \<Rightarrow> 0)"
  by (simp add: digits_value_def)

lemma digits_value_show_nat: "digits_value (show_nat n) = n"
proof (induction n rule: show_nat.induct)
  case (1 n)
  show ?case
  proof (cases "n < 10")
    case True
    then show ?thesis
      by (subst show_nat.simps) (simp add: digits_value_def digit_val_digit_char)
  next
    case False
    then have "digits_value (show_nat n) = digits_value (show_nat (n div 10)) * 10 + n mod 10"
      by (subst show_nat.simps) (simp add: digits_value_snoc digit_val_digit_char)
    then show ?thesis using "1.IH" False by simp
  qed
qed

lemma digits_value_append:
  "digits_value (a @ b) = digits_value a * 10 ^ length b + digits_value b"
proof (induction b rule: rev_induct)
  case Nil
  then show ?case by (simp add: digits_value_def)
next
  case (snoc c b)
  have "digits_value (a @ b @ [c]) = digits_value (a @ b) * 10
      + (case digit_val c of Some d \<Rightarrow> d | None \<Rightarrow> 0)"
    using digits_value_snoc [of "a @ b" c] by simp
  then show ?case using snoc by (simp add: digits_value_snoc algebra_simps)
qed

lemma digits_value_zeros: "digits_value (replicate k CHR ''0'') = 0"
  by (induction k) (simp_all add: digits_value_def digit_val_def replicate_app_Cons_same)

lemma digits_value_pad: "digits_value (replicate k CHR ''0'' @ m) = digits_value m"
  by (simp add: digits_value_append digits_value_zeros)

lemma parseFloat_body:
  assumes "ds \<noteq> []" and "\<forall>c \<in> set ds. is_digit c" and "\<forall>c \<in> set fs. is_digit c"
  shows "parseFloat (ds @ CHR ''.'' # fs)
           = Fin (fl (real (digits_value ds) + real (digits_value fs) / 10 ^ length fs))"
    and "parseFloat (CHR ''-'' # ds @ CHR ''.'' # fs)
           = Fin (fl (- (real (digits_value ds) + real (digits_value fs) / 10 ^ length fs)))"
    and "parseFloat ds = Fin (fl (real (digits_value ds)))"
    and "parseFloat (CHR ''-'' # ds) = Fin (fl (- real (digits_value ds)))"
proof -
  obtain c t where ds: "ds = c # t" using assms(1) by (cases ds) auto
  have c: "c \<noteq> CHR ''-''" using assms(2) not_digit_minus by (auto simp: ds)
  have tw: "takeWhile is_digit (ds @ CHR ''.'' # fs) = ds"
    using assms(2) by (simp add: takeWhile_append2 not_digit_point)
  have dw: "dropWhile is_digit (ds @ CHR ''.'' # fs) = CHR ''.'' # fs"
    using assms(2) by (simp add: dropWhile_append2 not_digit_point)
  have tf: "takeWhile is_digit fs = fs" using assms(3) by (simp add: takeWhile_eq_all_conv)
  have td: "takeWhile is_digit ds = ds" using assms(2) by (simp add: takeWhile_eq_all_conv)
  have dd: "dropWhile is_digit ds = []" using assms(2) by simp
  have s1: "(case ds @ CHR ''.'' # fs of c # t \<Rightarrow> if c = CHR ''-'' then (True, t) else (False, ds @ CHR ''.'' # fs)
             | [] \<Rightarrow> (False, ds @ CHR ''.'' # fs)) = (False, ds @ CHR ''.'' # fs)"
    using c by (simp add: ds)
  have s3: "(case ds of c # t \<Rightarrow> if c = CHR ''-'' then (True, t) else (False, ds)
             | [] \<Rightarrow> (False, ds)) = (False, ds)"
    using c by (simp add: ds)
  show "parseFloat (ds @ CHR ''.'' # fs)
           = Fin (fl (real (digits_value ds) + real (digits_value fs) / 10 ^ length fs))"
    unfolding parseFloat_def s1 using assms(1) by (simp add: tw dw tf)
  show "parseFloat (CHR ''-'' # ds @ CHR ''.'' # fs)
           = Fin (fl (- (real (digits_value ds) + real (digits_value fs) / 10 ^ length fs)))"
    unfolding parseFloat_def using assms(1) by (simp add: tw dw tf)
  show "parseFloat ds = Fin (fl (real (digits_value ds)))"
    unfolding parseFloat_def s3 using assms(1) by (simp add: td dd digits_value_def)
  show "parseFloat (CHR ''-'' # ds) = Fin (fl (- real (digits_value ds)))"
    unfolding parseFloat_def using assms(1) by (simp add: td dd digits_value_def)
qed

lemma decimal_value_body:
  assumes "ds \<noteq> []" and "\<forall>c \<in> set ds. is_digit c" and "\<forall>c \<in> set fs. is_digit c"
  shows "decimal_value (ds @ CHR ''.'' # fs)
           = Some (real (digits_value (ds @ fs)) / 10 ^ length fs)"
    and "decimal_value (CHR ''-'' # ds @ CHR ''.'' # fs)
           = Some (- (real (digits_value (ds @ fs)) / 10 ^ length fs))"
    and "decimal_value ds = Some (real (digits_value ds))"
    and "decimal_value (CHR ''-'' # ds) = Some (- real (digits_value ds))"
proof -
  obtain c t where ds: "ds = c # t" using assms(1) by (cases ds) auto
  have c: "c \<noteq> CHR ''-''" using assms(2) not_digit_minus by (auto simp: ds)
  have np: "\<forall>c \<in> set ds. c \<noteq> CHR ''.''" using assms(2) not_digit_point by auto
  have tw: "takeWhile (\<lambda>c. c \<noteq> CHR ''.'') (ds @ CHR ''.'' # fs) = ds"
    using np by (simp add: takeWhile_append2)
  have dw: "dropWhile (\<lambda>c. c \<noteq> CHR ''.'') (ds @ CHR ''.'' # fs) = CHR ''.'' # fs"
    using np by (simp add: dropWhile_append2)
  have td: "takeWhile (\<lambda>c. c \<noteq> CHR ''.'') ds = ds" using np by (simp add: takeWhile_eq_all_conv)
  have dd: "dropWhile (\<lambda>c. c \<noteq> CHR ''.'') ds = []" using np by simp
  have la: "list_all is_digit ds" "list_all is_digit fs"
    using assms(2,3) by (simp_all add: list_all_iff)
  have h1: "take 1 (ds @ CHR ''.'' # fs) \<noteq> ''-''" "take 1 ds \<noteq> ''-''"
    using c by (simp_all add: ds)
  show "decimal_value (ds @ CHR ''.'' # fs)
           = Some (real (digits_value (ds @ fs)) / 10 ^ length fs)"
    unfolding decimal_value_def Let_def using assms(1) h1 la by (simp add: tw dw)
  show "decimal_value (CHR ''-'' # ds @ CHR ''.'' # fs)
           = Some (- (real (digits_value (ds @ fs)) / 10 ^ length fs))"
    unfolding decimal_value_def Let_def using assms(1) la by (simp add: tw dw)
  show "decimal_value ds = Some (real (digits_value ds))"
    unfolding decimal_value_def Let_def using assms(1) h1 la by (simp add: td dd)
  show "decimal_value (CHR ''-'' # ds) = Some (- real (digits_value ds))"
    unfolding decimal_value_def Let_def using assms(1) la by (simp add: td dd)
qed

text \<open>
  The text of \<^verbatim>\<open>toFixed\<close> splits into a sign, digits, and for a positive number of
  decimals a point and that many digits; all the digits together write the integer
  nearest to \<open>\<bar>x\<bar> \<cdot> 10\<^sup>f\<close>.
\<close>

lemma toFixed_form:
  obtains a b where "a \<noteq> []" "\<forall>c \<in> set a. is_digit c" "\<forall>c \<in> set b. is_digit c" "length b = f"
    "digits_value (a @ b) = nat \<lfloor>\<bar>x\<bar> * 10 ^ f + 1 / 2\<rfloor>"
    "toFixed f x = (if x < 0 then ''-'' else []) @ a @ (if f = 0 then [] else CHR ''.'' # b)"
proof -
  define n where "n = nat \<lfloor>\<bar>x\<bar> * 10 ^ f + 1 / 2\<rfloor>"
  define m where "m = show_nat n"
  have mne: "m \<noteq> []" and mdig: "\<forall>c \<in> set m. is_digit c" and mval: "digits_value m = n"
    by (simp_all add: m_def show_nat_nonempty show_nat_digits digits_value_show_nat)
  show ?thesis
  proof (cases "f = 0")
    case True
    have tf: "toFixed f x = (if x < 0 then ''-'' else []) @ m @ (if f = 0 then [] else CHR ''.'' # [])"
      by (simp add: toFixed_def True n_def m_def)
    show ?thesis
      using that [of m "[]"] mne mdig mval tf True by (simp add: n_def)
  next
    case False
    define m' where "m' = replicate (f + 1 - length m) CHR ''0'' @ m"
    define a where "a = take (length m' - f) m'"
    define b where "b = drop (length m' - f) m'"
    have len: "f + 1 \<le> length m'" by (simp add: m'_def)
    have m'dig: "\<forall>c \<in> set m'. is_digit c"
      using mdig by (auto simp: m'_def is_digit_zero)
    have ane: "a \<noteq> []" using len by (auto simp: a_def)
    have adig: "\<forall>c \<in> set a. is_digit c" using m'dig by (auto simp: a_def dest: in_set_takeD)
    have bdig: "\<forall>c \<in> set b. is_digit c" using m'dig by (auto simp: b_def dest: in_set_dropD)
    have blen: "length b = f" using len by (simp add: b_def)
    have "a @ b = m'" unfolding a_def b_def by (rule append_take_drop_id)
    then have val: "digits_value (a @ b) = n" by (simp only: m'_def digits_value_pad mval)
    have tf: "toFixed f x = (if x < 0 then ''-'' else []) @ a @ (if f = 0 then [] else CHR ''.'' # b)"
      using False by (simp add: toFixed_def Let_def n_def m_def m'_def a_def b_def)
    show ?thesis
      using that [of a b] ane adig bdig blen val tf by (simp add: n_def)
  qed
qed

lemma decimal_value_toFixed: "decimal_value (toFixed f x) = Some (round_fixed f x)"
proof -
  obtain a b where ab: "a \<noteq> []" "\<forall>c \<in> set a. is_digit c" "\<forall>c \<in> set b. is_digit c" "length b = f"
    "digits_value (a @ b) = nat \<lfloor>\<bar>x\<bar> * 10 ^ f + 1 / 2\<rfloor>"
    "toFixed f x = (if x < 0 then ''-'' else []) @ a @ (if f = 0 then [] else CHR ''.'' # b)"
    by (rule toFixed_form)
  show ?thesis
  proof (cases "f = 0")
    case True
    then have b: "b = []" using ab(4) by simp
    show ?thesis
      unfolding ab(6) round_fixed_def
      using decimal_value_body(3,4) [OF ab(1,2), of "[]"] ab(5) True
      by (cases "x < 0") (simp_all add: b)
  next
    case False
    show ?thesis
      unfolding ab(6) round_fixed_def
      using decimal_value_body(1,2) [OF ab(1,2,3)] ab(4,5) False
      by (cases "x < 0") simp_all
  qed
qed

lemma parseFloat_toFixed: "parseFloat (toFixed f x) = Fin (fl (round_fixed f x))"
proof -
  obtain a b where ab: "a \<noteq> []" "\<forall>c \<in> set a. is_digit c" "\<forall>c \<in> set b. is_digit c" "length b = f"
    "digits_value (a @ b) = nat \<lfloor>\<bar>x\<bar> * 10 ^ f + 1 / 2\<rfloor>"
    "toFixed f x = (if x < 0 then ''-'' else []) @ a @ (if f = 0 then [] else CHR ''.'' # b)"
    by (rule toFixed_form)
  define n where "n = nat \<lfloor>\<bar>x\<bar> * 10 ^ f + 1 / 2\<rfloor>"
  have split: "digits_value a * 10 ^ f + digits_value b = n"
    using ab(5) by (simp add: digits_value_append ab(4) n_def)
  have val: "real (digits_value a) + real (digits_value b) / 10 ^ f = real n / 10 ^ f"
  proof -
    have "real n = real (digits_value a) * 10 ^ f + real (digits_value b)"
      using split [symmetric] by simp
    then show ?thesis by (simp add: field_simps)
  qed
  have r0: "round_fixed f x = (if x < 0 then - 1 else 1) * real n / 10 ^ f"
    unfolding round_fixed_def n_def by (rule refl)
  have r: "round_fixed f x = (if x < 0 then - (real n / 10 ^ f) else real n / 10 ^ f)"
    unfolding r0 by simp
  show ?thesis
  proof (cases "f = 0")
    case True
    then have b: "b = []" using ab(4) by simp
    have n: "real (digits_value a) = real n" using split True b by (simp add: digits_value_def)
    show ?thesis
      unfolding ab(6) r
      using parseFloat_body(3,4) [OF ab(1,2), of "[]"] n True
      by (cases "x < 0") (simp_all add: b)
  next
    case False
    show ?thesis
      unfolding ab(6) r
      using parseFloat_body(1,2) [OF ab(1,2,3)] val ab(4) False
      by (cases "x < 0") simp_all
  qed
qed

lemma toFixed_nonempty: "toFixed f x \<noteq> []"
  by (simp add: toFixed_def Let_def show_nat_nonempty)


section \<open>Empty input\<close>

text \<open>
  Claim C9. For the empty sample the statistics memo returns the empty record (no fields,
  here \<open>None\<close>), and the histogram and the density curve, which is computed from that
  record, are empty lists (the curve memo returns, and returns the empty list): all three
  are values, none is a failure.
\<close>

theorem empty_sample_results:
  "stats [] = None \<and> histogramData [] = []
   \<and> normalCurveData js_exp (stats []) (length ([] :: real list)) cutoffScore = Some []"
  by (simp add: stats_def histogramData_def normalCurveData_def)

text \<open>
  Claim C10. For the empty sample and every cutoff the classifier returns the record
  with the three numbers 0: no quotient is computed and no text is formatted.
\<close>

theorem cutoffStats_empty:
  "cutoffStats [] cutoffScore = \<lparr> below = JNum 0, above = JNum 0, at_cutoff = JNum 0 \<rparr>"
  by (simp add: cutoffStats_def)


section \<open>The histogram of the sample 2, 7, 7, 19\<close>

text \<open>
  Claim C1, as stated: the histogram of \<open>[2, 7, 7, 19]\<close> consists of exactly the four bins
  0-4, 5-9, 10-14 and 15-19 with counts 1, 2, 0, 1. It does not: the loop runs while
  \<open>i \<le> maxScore\<close> and \<open>maxScore\<close> is 20, so a fifth bin starts at 20.
\<close>

theorem histogram_scenario_not_four_bins:
  "map (\<lambda>b. (bin_range b, bin_count b)) (histogramData [2, 7, 7, 19])
     \<noteq> [(''0-4'', 1), (''5-9'', 2), (''10-14'', 0), (''15-19'', 1)]"
  by (simp add: histogramData_def hist_loop.simps show_eval)

text \<open>
  Claim C1, amended: the histogram of \<open>[2, 7, 7, 19]\<close> has five bins, the four of the claim
  (the maximum 19 counted in 15-19) followed by the empty bin 20-24 that starts at the
  upper bound 20.
\<close>

theorem histogram_scenario_five_bins:
  "histogramData [2, 7, 7, 19] =
     [ \<lparr> bin_range = ''0-4'', bin_count = 1, bin_midpoint = 2.5 \<rparr>,
       \<lparr> bin_range = ''5-9'', bin_count = 2, bin_midpoint = 7.5 \<rparr>,
       \<lparr> bin_range = ''10-14'', bin_count = 0, bin_midpoint = 12.5 \<rparr>,
       \<lparr> bin_range = ''15-19'', bin_count = 1, bin_midpoint = 17.5 \<rparr>,
       \<lparr> bin_range = ''20-24'', bin_count = 0, bin_midpoint = 22.5 \<rparr> ]"
  by (simp add: histogramData_def hist_loop.simps show_eval)


section \<open>The sampler\<close>









section \<open>Quartiles and the statistics of a sample\<close>

lemma q1Index_div: "q1Index n = n div 4"
proof -
  have "real n * 0.25 = real n / real 4" by simp
  then show ?thesis unfolding q1Index_def by (simp only: floor_divide_of_nat_eq nat_int)
qed

lemma medianIndex_div: "medianIndex n = n div 2"
proof -
  have "real n * 0.5 = real n / real 2" by simp
  then show ?thesis unfolding medianIndex_def by (simp only: floor_divide_of_nat_eq nat_int)
qed

lemma q3Index_div: "q3Index n = (3 * n) div 4"
proof -
  have "real n * 0.75 = real (3 * n) / real 4" by simp
  then show ?thesis unfolding q3Index_def by (simp only: floor_divide_of_nat_eq nat_int)
qed

text \<open>For a non-empty sample every index read from the sorted copy lies within it.\<close>

lemma indices_in_range:
  "0 < n \<Longrightarrow> q1Index n < n \<and> medianIndex n < n \<and> q3Index n < n"
  by (simp add: q1Index_div medianIndex_div q3Index_div)

text \<open>
  Claim C8. For every non-empty sample, with Q1 and Q3 the values of the sorted sample at
  the indices \<open>\<lfloor>n \<cdot> 0.25\<rfloor>\<close> and \<open>\<lfloor>n \<cdot> 0.75\<rfloor>\<close> and the median its central value (the
  average of the two central values when \<open>n\<close> is even): Q1 \<open>\<le>\<close> median \<open>\<le>\<close> Q3.
\<close>

theorem quartile_ordering:
  assumes "scores \<noteq> []"
  shows "q1_value scores \<le> median_value scores \<and> median_value scores \<le> q3_value scores"
proof -
  let ?s = "sort scores" and ?n = "length scores"
  have n: "0 < ?n" using assms by simp
  have len: "length ?s = ?n" by simp
  have mono: "\<And>i j. i \<le> j \<Longrightarrow> j < ?n \<Longrightarrow> ?s ! i \<le> ?s ! j"
    using sorted_nth_mono [of ?s] len by simp
  show ?thesis
  proof (cases "?n mod 2 = 0")
    case True
    then have n2: "2 \<le> ?n" using n by arith
    have a: "?s ! (?n div 4) \<le> ?s ! (?n div 2 - 1)"
      using n2 True by (intro mono) linarith+
    have b: "?s ! (?n div 2 - 1) \<le> ?s ! (?n div 2)"
      using n2 by (intro mono) simp_all
    have c: "?s ! (?n div 2) \<le> ?s ! ((3 * ?n) div 4)"
      using n2 by (intro mono) linarith+
    from a b c True show ?thesis
      by (simp add: q1_value_def median_value_def q3_value_def q1Index_div medianIndex_div
          q3Index_div Let_def)
  next
    case False
    have a: "?s ! (?n div 4) \<le> ?s ! (?n div 2)"
      using n by (intro mono) linarith+
    have c: "?s ! (?n div 2) \<le> ?s ! ((3 * ?n) div 4)"
      using n by (intro mono) linarith+
    from a c False show ?thesis
      by (simp add: q1_value_def median_value_def q3_value_def q1Index_div medianIndex_div
          q3Index_div Let_def)
  qed
qed

theorem quartile_ordering_witness:
  "q1_value [10, 20, 30, 40] = 20 \<and> median_value [10, 20, 30, 40] = 25
   \<and> q3_value [10, 20, 30, 40] = 40
   \<and> q1_value [10, 20, 30, 40] \<le> median_value [10, 20, 30, 40]
   \<and> median_value [10, 20, 30, 40] \<le> q3_value [10, 20, 30, 40]"
  using quartile_ordering [of "[10, 20, 30, 40]"]
  by (simp add: q1_value_def median_value_def q3_value_def q1Index_def medianIndex_def
      q3Index_def)

text \<open>
  The sample 10, 20, 30, 40, field by field. The sums 100 and 500 and the mean 25 are
  exact; the variance is the double nearest to \<open>500 / 3\<close> and the standard deviation the
  double nearest to its square root.
\<close>

lemma scenario1_variance_value: "variance_value [10, 20, 30, 40] = Fin (fl (500 / 3))"
  by (simp add: variance_value_def mean_value_def)

lemma fl_variance_bounds:
  "16666 / 100 \<le> fl (500 / 3)" "fl (500 / 3) \<le> 16667 / 100"
proof -
  have "\<bar>fl (500 / 3) - 500 / 3\<bar> \<le> \<bar>500 / 3\<bar> / 2 ^ 53" by (rule fl_error)
  moreover have "\<bar>500 / 3 :: real\<bar> / 2 ^ 53 \<le> 1 / 1000" by simp
  ultimately have "\<bar>fl (500 / 3) - 500 / 3\<bar> \<le> 1 / 1000" by linarith
  then show "16666 / 100 \<le> fl (500 / 3)" "fl (500 / 3) \<le> 16667 / 100" by linarith+
qed

lemma toFixed_variance: "toFixed 2 (fl (500 / 3)) = ''166.67''"
proof -
  let ?v = "fl (500 / 3)"
  have "\<bar>?v - 500 / 3\<bar> \<le> \<bar>500 / 3\<bar> / 2 ^ 53" by (rule fl_error)
  moreover have "\<bar>500 / 3 :: real\<bar> / 2 ^ 53 \<le> 1 / 1000" by simp
  ultimately have e: "\<bar>?v - 500 / 3\<bar> \<le> 1 / 1000" by linarith
  have a: "\<not> ?v < 0" using e by linarith
  have b: "\<bar>?v\<bar> = ?v" using e by linarith
  have lo: "16667 \<le> ?v * 100 + 1 / 2" using e by linarith
  have hi: "?v * 100 + 1 / 2 < 16668" using e by linarith
  have "\<lfloor>?v * 100 + 1 / 2\<rfloor> = 16667" using lo hi by (intro floor_unique) simp_all
  then have c: "\<lfloor>?v * 10 ^ 2 + 1 / 2\<rfloor> = 16667" by simp
  show ?thesis
    unfolding toFixed_def Let_def by (simp only: a b c if_False) (simp add: show_eval)
qed

lemma sqrt_bounds:
  "12909 / 1000 \<le> sqrt (fl (500 / 3))" "sqrt (fl (500 / 3)) < 12911 / 1000"
proof -
  show "12909 / 1000 \<le> sqrt (fl (500 / 3))"
    using fl_variance_bounds(1) by (intro real_le_rsqrt) (simp add: power2_eq_square)
  show "sqrt (fl (500 / 3)) < 12911 / 1000"
    using fl_variance_bounds by (intro real_less_lsqrt) (simp_all add: power2_eq_square)
qed

lemma fl_sqrt_bounds:
  "1291 / 100 - 1 / 200 \<le> fl (sqrt (fl (500 / 3)))"
  "fl (sqrt (fl (500 / 3))) < 1291 / 100 + 1 / 200"
proof -
  define r where "r = sqrt (fl (500 / 3))"
  have r: "12909 / 1000 \<le> r" "r < 12911 / 1000" using sqrt_bounds by (simp_all add: r_def)
  have "\<bar>fl r - r\<bar> \<le> \<bar>r\<bar> / 2 ^ 53" by (rule fl_error)
  moreover have "\<bar>r\<bar> / 2 ^ 53 \<le> 1 / 1000" using r by simp
  ultimately have "\<bar>fl r - r\<bar> \<le> 1 / 1000" by linarith
  then show "1291 / 100 - 1 / 200 \<le> fl (sqrt (fl (500 / 3)))"
    "fl (sqrt (fl (500 / 3))) < 1291 / 100 + 1 / 200"
    using r unfolding r_def [symmetric] by linarith+
qed

lemma floor_sd: "\<lfloor>fl (sqrt (fl (500 / 3))) * 100 + 1 / 2\<rfloor> = 1291"
  using fl_sqrt_bounds by (intro floor_unique) simp_all

lemma toFixed_sd: "toFixed 2 (fl (sqrt (fl (500 / 3)))) = ''12.91''"
proof -
  let ?s = "fl (sqrt (fl (500 / 3)))"
  have p: "0 < ?s" using fl_sqrt_bounds(1) by linarith
  have a: "\<not> ?s < 0" using p by linarith
  have b: "\<bar>?s\<bar> = ?s" using p by linarith
  have c: "\<lfloor>?s * 10 ^ 2 + 1 / 2\<rfloor> = 1291" using floor_sd by simp
  show ?thesis
    unfolding toFixed_def Let_def by (simp only: a b c if_False) (simp add: show_eval)
qed

lemma scenario1_mean: "toFixed 2 (mean_value [10, 20, 30, 40]) = ''25.00''"
  by (simp add: mean_value_def toFixed_def show_eval)

lemma scenario1_median: "toFixed 2 (fl (median_value [10, 20, 30, 40])) = ''25.00''"
  by (simp add: median_value_def medianIndex_def toFixed_def show_eval)

lemma scenario1_mode: "getMode [10, 20, 30, 40] = ''No mode''"
  by (simp add: getMode_def js_round_def)

lemma scenario1_min: "toFixed 1 (Min (set [10, 20, 30, 40 :: real])) = ''10.0''"
  by (simp add: toFixed_def show_eval)

lemma scenario1_max: "toFixed 1 (Max (set [10, 20, 30, 40 :: real])) = ''40.0''"
  by (simp add: toFixed_def show_eval)

lemma scenario1_range:
  "toFixed 1 (fl (Max (set [10, 20, 30, 40 :: real]) - Min (set [10, 20, 30, 40]))) = ''30.0''"
  by (simp add: toFixed_def show_eval)

lemma scenario1_q1: "toFixed 1 (q1_value [10, 20, 30, 40]) = ''20.0''"
  by (simp add: q1_value_def q1Index_def toFixed_def show_eval)

lemma scenario1_q3: "toFixed 1 (q3_value [10, 20, 30, 40]) = ''40.0''"
  by (simp add: q3_value_def q3Index_def toFixed_def show_eval)

lemma scenario1_iqr:
  "toFixed 1 (fl (q3_value [10, 20, 30, 40] - q1_value [10, 20, 30, 40])) = ''20.0''"
  by (simp add: q3_value_def q3Index_def q1_value_def q1Index_def toFixed_def show_eval)

lemma scenario1_sd: "toFixed_num 2 (standardDev_value [10, 20, 30, 40]) = ''12.91''"
proof -
  have "0 \<le> fl (500 / 3)" using fl_variance_bounds(1) by linarith
  then show ?thesis
    by (simp add: standardDev_value_def scenario1_variance_value js_sqrt_def toFixed_num_def
        toFixed_sd)
qed

lemma scenario1_variance: "toFixed_num 2 (variance_value [10, 20, 30, 40]) = ''166.67''"
  by (simp add: scenario1_variance_value toFixed_num_def toFixed_variance)

text \<open>
  Claim C4. For the sample 10, 20, 30, 40 the statistics are: mean 25.00, median 25.00,
  variance 166.67 (division by \<open>n - 1\<close>), standard deviation 12.91, Q1 20.0 (index 1),
  Q3 40.0 (index 3) and IQR 20.0; with them count 4, no mode, minimum 10.0, maximum 40.0
  and range 30.0.
\<close>

theorem stats_scenario1:
  "stats [10, 20, 30, 40] = Some \<lparr>
     count_s = 4, mean_s = ''25.00'', median_s = ''25.00'', mode_s = ''No mode'',
     min_s = ''10.0'', max_s = ''40.0'', range_s = ''30.0'',
     q1_s = ''20.0'', q3_s = ''40.0'', iqr_s = ''20.0'',
     standardDev_s = ''12.91'', variance_s = ''166.67'' \<rparr>"
  unfolding stats_def
  by (simp only: scenario1_mean scenario1_median scenario1_mode scenario1_min scenario1_max
      scenario1_range scenario1_q1 scenario1_q3 scenario1_iqr scenario1_sd scenario1_variance)
     simp


section \<open>The mode\<close>

lemma first_seen_snoc:
  "first_seen (xs @ [x]) = (if x \<in> set (first_seen xs) then first_seen xs else first_seen xs @ [x])"
  by (simp add: first_seen_def)

lemma set_first_seen: "set (first_seen xs) = set xs"
  by (induction xs rule: rev_induct) (auto simp: first_seen_snoc, simp add: first_seen_def)

lemma distinct_first_seen: "distinct (first_seen xs)"
  by (induction xs rule: rev_induct) (simp_all add: first_seen_snoc, simp add: first_seen_def)

lemma sorted_first_seen: "sorted xs \<Longrightarrow> sorted (first_seen xs)"
proof (induction xs rule: rev_induct)
  case Nil
  then show ?case by (simp add: first_seen_def)
next
  case (snoc x xs)
  then have "sorted xs" and le: "\<forall>y \<in> set xs. y \<le> x" by (auto simp: sorted_append)
  with snoc.IH show ?case
    by (auto simp: first_seen_snoc sorted_append set_first_seen)
qed

lemma mode_inv_init: "mode_inv [] ([], 0, [])"
  by (simp add: mode_inv_def)

lemma mode_invI:
  assumes "distinct (map fst fr)" and "fst ` set fr = set rs"
    and "\<forall>v \<in> set rs. map_of fr v = Some (count_list rs v)"
    and "\<forall>v. count_list rs v \<le> mx"
    and "rs = [] \<longrightarrow> mx = 0"
    and "rs \<noteq> [] \<longrightarrow> (\<exists>v \<in> set rs. count_list rs v = mx)"
    and "distinct md"
    and "set md = {v \<in> set rs. count_list rs v = mx}"
    and "sorted rs \<longrightarrow> sorted md"
  shows "mode_inv rs (fr, mx, md)"
  using assms unfolding mode_inv_def by (simp only: prod.case) blast

lemma mode_inv_step:
  assumes inv: "mode_inv rs st"
  shows "mode_inv (rs @ [js_round x]) (mode_step st x)"
proof -
  obtain fr mx md where st: "st = (fr, mx, md)" by (cases st)
  define r where "r = js_round x"
  let ?c = "Suc (count_list rs r)"
  from inv st have
        d: "distinct (map fst fr)" and dom: "fst ` set fr = set rs"
    and look: "\<And>v. v \<in> set rs \<Longrightarrow> map_of fr v = Some (count_list rs v)"
    and le: "\<And>v. count_list rs v \<le> mx"
    and emp: "rs = [] \<Longrightarrow> mx = 0"
    and att: "rs \<noteq> [] \<Longrightarrow> \<exists>v \<in> set rs. count_list rs v = mx"
    and dm: "distinct md" and sm: "set md = {v \<in> set rs. count_list rs v = mx}"
    and so: "sorted rs \<Longrightarrow> sorted md"
    by (auto simp: mode_inv_def)
  have cval: "(case map_of fr r of Some c \<Rightarrow> c | None \<Rightarrow> 0) + 1 = ?c"
  proof (cases "r \<in> set rs")
    case True
    then show ?thesis using look by simp
  next
    case False
    then have "map_of fr r = None" using dom by (simp add: map_of_eq_None_iff)
    moreover have "count_list rs r = 0" using False by (simp add: count_list_0_iff)
    ultimately show ?thesis by simp
  qed
  let ?fr = "AList.update r ?c fr" and ?rs = "rs @ [r]"
  have f1: "distinct (map fst ?fr)" using d by (simp add: distinct_update)
  have f2: "fst ` set ?fr = set ?rs" using dom by (simp add: dom_update)
  have f3: "\<forall>v \<in> set ?rs. map_of ?fr v = Some (count_list ?rs v)"
    using look by (auto simp: update_conv')
  have f5: "?rs = [] \<longrightarrow> n = (0::nat)" for n by simp
  have step: "mode_step st x =
      (if ?c > mx then (?fr, ?c, [r])
       else if ?c = mx \<and> r \<notin> set md then (?fr, mx, md @ [r])
       else (?fr, mx, md))"
    using cval by (simp add: st r_def Let_def)
  have rnotmax: "r \<in> set md \<Longrightarrow> ?c \<noteq> mx"
    using sm by auto
  consider (new) "?c > mx" | (tie) "?c = mx" "r \<notin> set md" | (low) "?c < mx"
    using rnotmax by (cases "?c > mx"; cases "?c = mx"; cases "r \<in> set md") auto
  then have "mode_inv ?rs (mode_step st x)"
  proof cases
    case new
    have mxr: "mx = count_list rs r" using new le [of r] by simp
    have lt: "count_list rs v < ?c" for v using le [of v] mxr by simp
    have ne: "count_list rs v \<noteq> ?c" for v using lt [of v] by simp
    have f8: "set [r] = {v \<in> set ?rs. count_list ?rs v = ?c}"
      by (auto simp: ne)
    have f4: "\<forall>v. count_list ?rs v \<le> ?c"
      using lt by (auto simp: less_imp_le)
    have f6: "?rs \<noteq> [] \<longrightarrow> (\<exists>v \<in> set ?rs. count_list ?rs v = ?c)" by auto
    have val: "mode_step st x = (?fr, ?c, [r])" using new step by simp
    show ?thesis unfolding val
      by (rule mode_invI [OF f1 f2 f3 f4 f5 f6 _ f8]) simp_all
  next
    case tie
    have f8: "set (md @ [r]) = {v \<in> set ?rs. count_list ?rs v = mx}"
      using tie sm by auto
    have f4: "\<forall>v. count_list ?rs v \<le> mx"
      using tie le by auto
    have f6: "?rs \<noteq> [] \<longrightarrow> (\<exists>v \<in> set ?rs. count_list ?rs v = mx)" using tie by auto
    have f7: "distinct (md @ [r])" using dm tie by simp
    have f9: "sorted ?rs \<longrightarrow> sorted (md @ [r])"
      using so sm by (auto simp: sorted_append)
    have val: "mode_step st x = (?fr, mx, md @ [r])" using tie step by simp
    show ?thesis unfolding val
      by (rule mode_invI [OF f1 f2 f3 f4 f5 f6 f7 f8 f9])
  next
    case low
    then have ne: "rs \<noteq> []" using emp by auto
    from att [OF ne] obtain v0 where v0: "v0 \<in> set rs" "count_list rs v0 = mx" by blast
    then have "v0 \<noteq> r" using low by auto
    then have f6: "?rs \<noteq> [] \<longrightarrow> (\<exists>v \<in> set ?rs. count_list ?rs v = mx)" using v0 by auto
    have f8: "set md = {v \<in> set ?rs. count_list ?rs v = mx}"
      using low sm by auto
    have f4: "\<forall>v. count_list ?rs v \<le> mx"
      using low le by auto
    have f9: "sorted ?rs \<longrightarrow> sorted md"
      using so by (auto simp: sorted_append)
    have val: "mode_step st x = (?fr, mx, md)" using low step by simp
    show ?thesis unfolding val
      by (rule mode_invI [OF f1 f2 f3 f4 f5 f6 dm f8 f9])
  qed
  then show ?thesis by (simp add: r_def)
qed

lemma mode_inv_fold: "mode_inv (map js_round scores) (foldl mode_step ([], 0, []) scores)"
  by (induction scores rule: rev_induct) (simp_all add: mode_inv_init mode_inv_step)


lemma join_Cons: "join sep (y # ys) = y @ concat (map (\<lambda>z. sep @ z) ys)"
proof -
  have "foldl (\<lambda>acc z. acc @ sep @ z) a ys = a @ concat (map (\<lambda>z. sep @ z) ys)" for a
    by (induction ys arbitrary: a) simp_all
  then show ?thesis by (simp add: join_def)
qed

lemma digit_char_in: "digit_char d \<in> set ''0123456789''"
proof -
  have "d mod 10 < length ''0123456789''" by simp
  then show ?thesis unfolding digit_char_def by (rule nth_mem)
qed

lemma show_nat_hd: "show_nat n \<noteq> [] \<and> hd (show_nat n) \<in> set ''0123456789''"
proof (induction n rule: show_nat.induct)
  case (1 n)
  show ?case
  proof (cases "n < 10")
    case True
    then show ?thesis using digit_char_in [of n] by (subst (1 2) show_nat.simps) simp
  next
    case False
    then show ?thesis using "1.IH" by (subst (1 2) show_nat.simps) simp
  qed
qed

lemma show_int_hd: "show_int i \<noteq> [] \<and> hd (show_int i) \<in> set ''-0123456789''"
  using show_nat_hd [of "nat i"] by (auto simp: show_int_def)

lemma join_not_no_mode:
  assumes "md \<noteq> []"
  shows "join '', '' (map show_int md) \<noteq> ''No mode''"
proof -
  obtain m ms where md: "md = m # ms" using assms by (cases md) auto
  have "hd (join '', '' (map show_int md)) = hd (show_int m)"
    using show_int_hd [of m] by (simp add: md join_Cons)
  then have "hd (join '', '' (map show_int md)) \<in> set ''-0123456789''"
    using show_int_hd [of m] by simp
  moreover have "hd ''No mode'' \<notin> set ''-0123456789''" by simp
  ultimately show ?thesis by metis
qed

lemma sorted_round: "sorted scores \<Longrightarrow> sorted (map js_round scores)"
proof -
  have "js_round a \<le> js_round b" if "a \<le> b" for a b :: real
    using that unfolding js_round_def by (intro floor_mono) simp
  then show "sorted scores \<Longrightarrow> sorted (map js_round scores)"
    by (induction scores) auto
qed

text \<open>
  What the tally yields, in terms of the rounding and the joining of the code.
\<close>

lemma getMode_tally:
  assumes "scores \<noteq> []"
  shows "(getMode scores = ''No mode'') = same_frequency (map js_round scores)
     \<and> (sorted scores \<and> \<not> same_frequency (map js_round scores) \<longrightarrow>
          getMode scores = join '', '' (map show_int (most_frequent (map js_round scores))))"
proof -
  let ?rs = "map js_round scores"
  obtain fr mx md where fold: "foldl mode_step ([], 0, []) scores = (fr, mx, md)"
    by (cases "foldl mode_step ([], 0, []) scores")
  have inv: "mode_inv ?rs (fr, mx, md)" using mode_inv_fold [of scores] fold by simp
  have ne: "?rs \<noteq> []" using assms by simp
  from inv have
        d: "distinct (map fst fr)" and dom: "fst ` set fr = set ?rs"
    and le: "\<And>v. count_list ?rs v \<le> mx"
    and att: "\<exists>v \<in> set ?rs. count_list ?rs v = mx"
    and dm: "distinct md" and sm: "set md = {v \<in> set ?rs. count_list ?rs v = mx}"
    and so: "sorted ?rs \<Longrightarrow> sorted md"
    using ne by (auto simp: mode_inv_def)
  from att obtain v0 where v0: "v0 \<in> set ?rs" "count_list ?rs v0 = mx" by blast
  have mdne: "md \<noteq> []" using v0 sm by auto
  have lenfr: "length (map fst fr) = card (set ?rs)"
    using d dom distinct_card [of "map fst fr"] by simp
  have lenmd: "length md = card (set md)" using dm by (simp add: distinct_card)
  have sub: "set md \<subseteq> set ?rs" using sm by auto
  have eq_iff: "(length md = length (map fst fr)) = (set md = set ?rs)"
  proof
    assume "length md = length (map fst fr)"
    then have "card (set md) = card (set ?rs)" using lenfr lenmd by simp
    then show "set md = set ?rs" using sub by (intro card_subset_eq) simp_all
  next
    assume "set md = set ?rs"
    then show "length md = length (map fst fr)" using lenfr lenmd by simp
  qed
  have same_iff: "(set md = set ?rs) = same_frequency ?rs"
  proof
    assume "set md = set ?rs"
    then have "\<forall>v \<in> set ?rs. count_list ?rs v = mx" using sm by auto
    then show "same_frequency ?rs" by (simp add: same_frequency_def)
  next
    assume sf: "same_frequency ?rs"
    have "\<forall>v \<in> set ?rs. count_list ?rs v = mx"
      using sf v0 unfolding same_frequency_def by metis
    then show "set md = set ?rs" using sm by auto
  qed
  have val: "getMode scores =
      (if same_frequency ?rs then ''No mode'' else join '', '' (map show_int md))"
    using eq_iff same_iff by (simp add: getMode_def fold)
  have maxset: "{v \<in> set ?rs. \<forall>w \<in> set ?rs. count_list ?rs w \<le> count_list ?rs v}
      = {v \<in> set ?rs. count_list ?rs v = mx}"
    using le v0 by (auto simp: antisym)
  have mf: "most_frequent ?rs = md" if "sorted scores"
  proof (rule sorted_distinct_set_unique)
    have srt: "sorted ?rs" using that by (rule sorted_round)
    show "sorted (most_frequent ?rs)"
      unfolding most_frequent_def using srt by (intro sorted_wrt_filter) (rule sorted_first_seen)
    show "distinct (most_frequent ?rs)"
      unfolding most_frequent_def by (intro distinct_filter) (rule distinct_first_seen)
    show "sorted md" using srt by (rule so)
    show "distinct md" by (rule dm)
    show "set (most_frequent ?rs) = set md"
      using maxset sm by (simp add: most_frequent_def set_first_seen)
  qed
  show ?thesis
    using val mf join_not_no_mode [OF mdne] by auto
qed

text \<open>
  The code's rounding is rounding to the nearest integer, its joining puts a comma and a
  blank between the texts, and the text of an integer denotes that integer.
\<close>

lemma js_round_nearest: "js_round x = nearest_integer x"
proof -
  have f: "real_of_int \<lfloor>x\<rfloor> \<le> x" "x < real_of_int \<lfloor>x\<rfloor> + 1" by linarith+
  show ?thesis
  proof (cases "x - real_of_int \<lfloor>x\<rfloor> < 1 / 2")
    case True
    then have "\<lfloor>x + 1 / 2\<rfloor> = \<lfloor>x\<rfloor>" using f by (intro floor_unique) linarith+
    then show ?thesis using True by (simp add: js_round_def nearest_integer_def)
  next
    case False
    then have "\<lfloor>x + 1 / 2\<rfloor> = \<lfloor>x\<rfloor> + 1" using f by (intro floor_unique) (simp_all, linarith+)
    then show ?thesis using False by (simp add: js_round_def nearest_integer_def)
  qed
qed

lemma nearest_integer_close:
  "\<bar>real_of_int (nearest_integer x) - x\<bar> \<le> 1 / 2"
  unfolding nearest_integer_def by (auto; linarith)

lemma join_comma_joined: "join '', '' xs = comma_joined xs"
proof (cases xs)
  case Nil
  then show ?thesis by (simp add: join_def)
next
  case (Cons y ys)
  have "comma_joined (y # ys) = y @ concat (map (\<lambda>z. '', '' @ z) ys)"
    by (induction ys arbitrary: y) simp_all
  then show ?thesis by (simp add: Cons join_Cons)
qed

lemma int_of_text_show_int: "int_of_text (show_int i) = Some i"
proof (cases "i < 0")
  case True
  have "show_nat (nat (- i)) \<noteq> []" by (rule show_nat_nonempty)
  moreover have "list_all is_digit (show_nat (nat (- i)))"
    using show_nat_digits by (simp add: list_all_iff)
  ultimately show ?thesis
    using True by (simp add: int_of_text_def show_int_def digits_value_show_nat)
next
  case False
  obtain c t where ct: "show_nat (nat i) = c # t"
    using show_nat_nonempty [of "nat i"] by (cases "show_nat (nat i)") auto
  have dig: "list_all is_digit (show_nat (nat i))"
    using show_nat_digits by (simp add: list_all_iff)
  then have "is_digit c" by (simp add: ct)
  then have c: "c \<noteq> CHR ''-''" using not_digit_minus by auto
  have "int_of_text (c # t) = Some (int (digits_value (c # t)))"
    using c dig by (simp add: int_of_text_def ct)
  then show ?thesis
    using False by (simp add: show_int_def ct [symmetric] digits_value_show_nat)
qed


text \<open>
  Claim C3. A sample is kept in ascending order (the sampler sorts it, and nothing else
  writes the state). For every non-empty sample the scores are rounded to the nearest
  integer and tallied; the result is \<^verbatim>\<open>No mode\<close> exactly when all distinct rounded values
  occur equally often, and otherwise it is the comma-joined list of the decimal texts of
  the rounded values of the largest frequency, in the order in which they are first met.
  The first half holds of every non-empty list of scores, the order of the second half
  of sorted ones.
\<close>

theorem getMode_spec:
  assumes "scores \<noteq> []"
  shows "(getMode scores = ''No mode'') = same_frequency (map nearest_integer scores)
     \<and> (sorted scores \<and> \<not> same_frequency (map nearest_integer scores) \<longrightarrow>
          (\<exists>texts. getMode scores = comma_joined texts
             \<and> map int_of_text texts = map Some (most_frequent (map nearest_integer scores))))"
proof -
  have r: "map js_round scores = map nearest_integer scores"
    by (simp add: js_round_nearest)
  let ?mf = "most_frequent (map nearest_integer scores)"
  have t: "map int_of_text (map show_int ?mf) = map Some ?mf"
    by (simp add: int_of_text_show_int comp_def)
  show ?thesis
    using getMode_tally [OF assms] t unfolding r join_comma_joined by blast
qed

text \<open>
  A sample with scores to be rounded down (1.4, 2.4), a tie rounded up (1.5) and two
  modes, 2 and 7, to be joined.
\<close>

theorem getMode_spec_witness:
  "getMode [1.4, 1.5, 2.4, 7.2, 7.4, 9] = ''2, 7''
   \<and> map nearest_integer [1.4, 1.5, 2.4, 7.2, 7.4, 9] = [1, 2, 2, 7, 7, 9]
   \<and> most_frequent [1, 2, 2, 7, 7, 9] = [2, 7]
   \<and> \<not> same_frequency [1, 2, 2, 7, 7, 9]
   \<and> comma_joined [''2'', ''7''] = ''2, 7''
   \<and> map int_of_text [''2'', ''7''] = [Some 2, Some 7]"
proof -
  have g: "getMode [1.4, 1.5, 2.4, 7.2, 7.4, 9] = ''2, 7''"
    by (simp add: getMode_def js_round_def join_def show_eval)
  have n: "map nearest_integer [1.4, 1.5, 2.4, 7.2, 7.4, 9] = [1, 2, 2, 7, 7, 9]"
    by (simp add: nearest_integer_def)
  have m: "most_frequent [1, 2, 2, 7, 7, 9] = [2, 7]"
    by (simp add: most_frequent_def first_seen_def)
  have s: "\<not> same_frequency [1, 2, 2, 7, 7, 9]"
    by (simp add: same_frequency_def)
  have i: "map int_of_text [''2'', ''7''] = [Some 2, Some 7]"
    by (simp add: int_of_text_def is_digit_def digit_val_def digits_value_def)
  show ?thesis
    using getMode_spec [of "[1.4, 1.5, 2.4, 7.2, 7.4, 9]"] g n m s i by simp
qed



section \<open>Histogram counts\<close>

lemma count_split:
  "a \<le> b \<Longrightarrow> b \<le> c \<Longrightarrow>
   length (filter (\<lambda>s::real. a \<le> s \<and> s < b) xs) + length (filter (\<lambda>s. b \<le> s \<and> s < c) xs)
     = length (filter (\<lambda>s. a \<le> s \<and> s < c) xs)"
  by (induction xs) auto

lemma hist_upper_step:
  assumes "i \<le> m"
  shows "hist_upper (i + 5) m = hist_upper i m"
proof (cases "i + 5 \<le> m")
  case True
  have "(m - i) div 5 = (m - (i + 5)) div 5 + 1"
    using div_add_self2 [of 5 "m - (i + 5)"] by simp
  then show ?thesis using True assms by (simp add: hist_upper_def)
next
  case False
  then have "(m - i) div 5 = 0" using assms by simp
  then show ?thesis using False assms by (simp add: hist_upper_def)
qed

lemma hist_upper_ge: "i \<le> hist_upper i m"
proof (cases "i \<le> m")
  case True
  then have "0 \<le> (m - i) div 5" by simp
  then show ?thesis using True by (simp add: hist_upper_def)
next
  case False
  then show ?thesis by (simp add: hist_upper_def)
qed

lemma hist_upper_multiples: "a \<le> b \<Longrightarrow> hist_upper (a * 5) (b * 5) = b * 5 + 5"
proof -
  assume "a \<le> b"
  moreover have "(b * 5 - a * 5) div 5 = b - a"
  proof -
    have "b * 5 - a * 5 = (b - a) * 5" by (simp add: algebra_simps)
    then show ?thesis by simp
  qed
  ultimately show ?thesis by (simp add: hist_upper_def)
qed

lemma hist_loop_holds:
  "length (filter (\<lambda>b. bin_holds b s) (hist_loop i m scores))
     = (if real_of_int i \<le> s \<and> s < real_of_int (hist_upper i m) then 1 else 0)"
proof (induction i m scores rule: hist_loop.induct)
  case (1 i m scores)
  show ?case
  proof (cases "i \<le> m")
    case True
    have up: "hist_upper (i + 5) m = hist_upper i m" using True by (rule hist_upper_step)
    have le: "real_of_int (i + 5) \<le> real_of_int (hist_upper i m)"
      using hist_upper_ge [of "i + 5" m] up by simp
    have "length (filter (\<lambda>b. bin_holds b s) (hist_loop i m scores))
        = (if real_of_int i \<le> s \<and> s < real_of_int (i + 5) then 1 else 0)
          + length (filter (\<lambda>b. bin_holds b s) (hist_loop (i + 5) m scores))"
      using True by (subst hist_loop.simps) (simp add: bin_holds_def)
    also have "\<dots> = (if real_of_int i \<le> s \<and> s < real_of_int (i + 5) then 1 else 0)
          + (if real_of_int (i + 5) \<le> s \<and> s < real_of_int (hist_upper i m) then 1 else 0)"
      using "1.IH" [OF True] up by simp
    also have "\<dots> = (if real_of_int i \<le> s \<and> s < real_of_int (hist_upper i m) then 1 else 0)"
      using le by auto
    finally show ?thesis .
  next
    case False
    then show ?thesis by (subst hist_loop.simps) (simp add: hist_upper_def)
  qed
qed

lemma hist_loop_count:
  "sum_list (map bin_count (hist_loop i m scores))
     = length (filter (\<lambda>s. real_of_int i \<le> s \<and> s < real_of_int (hist_upper i m)) scores)"
proof (induction i m scores rule: hist_loop.induct)
  case (1 i m scores)
  show ?case
  proof (cases "i \<le> m")
    case True
    have up: "hist_upper (i + 5) m = hist_upper i m" using True by (rule hist_upper_step)
    have le: "i + 5 \<le> hist_upper i m" using hist_upper_ge [of "i + 5" m] up by simp
    have "sum_list (map bin_count (hist_loop i m scores))
        = length (filter (\<lambda>s. real_of_int i \<le> s \<and> s < real_of_int (i + 5)) scores)
          + sum_list (map bin_count (hist_loop (i + 5) m scores))"
      using True by (subst hist_loop.simps) simp
    also have "\<dots> = length (filter (\<lambda>s. real_of_int i \<le> s \<and> s < real_of_int (i + 5)) scores)
          + length (filter (\<lambda>s. real_of_int (i + 5) \<le> s \<and> s < real_of_int (hist_upper i m)) scores)"
      using "1.IH" [OF True] up by simp
    also have "\<dots> = length (filter (\<lambda>s. real_of_int i \<le> s \<and> s < real_of_int (hist_upper i m)) scores)"
      using le by (intro count_split) simp_all
    finally show ?thesis .
  next
    case False
    then show ?thesis by (subst hist_loop.simps) (simp add: hist_upper_def)
  qed
qed

text \<open>
  Claim C6. For every non-empty sample the counts of the bins of the histogram add up to
  the length of the sample, and every score of the sample lies in the interval of exactly
  one bin.
\<close>

theorem histogram_counts_sum:
  assumes "scores \<noteq> []"
  shows "sum_list (map bin_count (histogramData scores)) = length scores
     \<and> (\<forall>score \<in> set scores.
          length (filter (\<lambda>b. bin_holds b score) (histogramData scores)) = 1)"
proof -
  define a where "a = \<lfloor>Min (set scores) / 5\<rfloor>"
  define b where "b = \<lceil>Max (set scores) / 5\<rceil>"
  have lo_le: "real_of_int (a * 5) \<le> Min (set scores)"
  proof -
    have "real_of_int a \<le> Min (set scores) / 5" unfolding a_def by (rule of_int_floor_le)
    moreover have "real_of_int (a * 5) = real_of_int a * 5" by simp
    ultimately show ?thesis by linarith
  qed
  have hi_ge: "Max (set scores) \<le> real_of_int (b * 5)"
  proof -
    have "Max (set scores) / 5 \<le> real_of_int b" unfolding b_def by (rule le_of_int_ceiling)
    moreover have "real_of_int (b * 5) = real_of_int b * 5" by simp
    ultimately show ?thesis by linarith
  qed
  have mm: "Min (set scores) \<le> Max (set scores)" using assms by simp
  have "real_of_int (a * 5) \<le> real_of_int (b * 5)" using lo_le hi_ge mm by linarith
  then have ab: "a \<le> b" by simp
  have up: "hist_upper (a * 5) (b * 5) = b * 5 + 5" using ab by (rule hist_upper_multiples)
  have hd: "histogramData scores = hist_loop (a * 5) (b * 5) scores"
    using assms by (simp add: histogramData_def a_def b_def)
  have all: "real_of_int (a * 5) \<le> s \<and> s < real_of_int (b * 5 + 5)" if "s \<in> set scores" for s
  proof -
    have "Min (set scores) \<le> s" "s \<le> Max (set scores)" using that by simp_all
    then show ?thesis using lo_le hi_ge by simp
  qed
  have "sum_list (map bin_count (histogramData scores))
      = length (filter (\<lambda>s. real_of_int (a * 5) \<le> s \<and> s < real_of_int (b * 5 + 5)) scores)"
    unfolding hd hist_loop_count up ..
  also have "\<dots> = length scores"
    using all by (simp add: filter_id_conv)
  finally have total: "sum_list (map bin_count (histogramData scores)) = length scores" .
  have one: "length (filter (\<lambda>b. bin_holds b s) (histogramData scores)) = 1"
    if "s \<in> set scores" for s
    unfolding hd hist_loop_holds up using all [OF that] by simp
  show ?thesis using total one by blast
qed

text \<open>The maximum 100 lies on a bin start and is counted in the trailing bin.\<close>

theorem histogram_counts_sum_witness:
  "sum_list (map bin_count (histogramData [70, 75, 100, 100])) = 4
   \<and> map bin_count (histogramData [70, 75, 100, 100]) = [1, 1, 0, 0, 0, 0, 2]"
  using histogram_counts_sum [of "[70, 75, 100, 100]"]
  by (simp add: histogramData_def hist_loop.simps show_eval)


section \<open>The threshold classifier\<close>

lemma partition_counts:
  "below_count scores c + at_count scores c + above_count scores c = length scores"
  unfolding below_count_def at_count_def above_count_def
  by (induction scores) auto

text \<open>
  The double quotient of a count by the length lies between 0 and 1, and the double
  product with 100 is within \<open>200 / 2\<^sup>5\<^sup>3\<close> of the exact percentage.
\<close>

lemma percent_double:
  assumes "c \<le> n" "0 < n"
  shows "0 \<le> fl (fl (real c / real n) * 100)"
    and "\<bar>fl (fl (real c / real n) * 100) - real c / real n * 100\<bar> \<le> 200 / 2 ^ 53"
proof -
  define u :: real where "u = 1 / 2 ^ 53"
  have fl_u: "\<bar>fl x - x\<bar> \<le> \<bar>x\<bar> * u" for x
    using fl_error [of x] by (simp add: u_def)
  define r where "r = real c / real n"
  define q where "q = fl r"
  have r: "0 \<le> r" "r \<le> 1" using assms by (simp_all add: r_def)
  have q0: "0 \<le> q" unfolding q_def using r(1) by (rule fl_nonneg)
  have q1: "q \<le> 1" using fl_mono [OF r(2)] by (simp add: q_def fl_one)
  have u0: "0 \<le> u" by (simp add: u_def)
  have "\<bar>r\<bar> * u \<le> 1 * u" using r u0 by (intro mult_right_mono) simp_all
  then have e1: "\<bar>q - r\<bar> \<le> u" using fl_u [of r] by (simp add: q_def)
  have "\<bar>q * 100\<bar> * u \<le> 100 * u" using q0 q1 u0 by (intro mult_right_mono) simp_all
  then have e2: "\<bar>fl (q * 100) - q * 100\<bar> \<le> 100 * u" using fl_u [of "q * 100"] by linarith
  show "0 \<le> fl (fl (real c / real n) * 100)"
    using q0 by (intro fl_nonneg) (simp add: q_def r_def)
  have "\<bar>fl (q * 100) - r * 100\<bar> \<le> 200 * u" using e1 e2 by linarith
  then show "\<bar>fl (fl (real c / real n) * 100) - real c / real n * 100\<bar> \<le> 200 / 2 ^ 53"
    by (simp add: q_def r_def u_def)
qed

lemma toFixed1_value:
  assumes "0 \<le> p"
  shows "decimal_value (toFixed 1 p) = Some (real (nat \<lfloor>p * 10 + 1 / 2\<rfloor>) / 10)"
  using assms by (simp add: decimal_value_toFixed round_fixed_def)

text \<open>
  Ten times the exact percentage is a fraction with the denominator \<open>n\<close>, so that it is
  either a tie, or at least \<open>1 / (2 \<cdot> n)\<close> away from one: an integer that is nearest to
  a number close to it is nearest to it as well.
\<close>

lemma nearest_tenth_sharp:
  fixes k c n :: nat
  assumes n: "0 < n" "n < 2 ^ 32"
    and close: "\<bar>real k - real c / real n * 1000\<bar> \<le> 1 / 2 + 1 / 2 ^ 40"
  shows "\<bar>real k - real c / real n * 1000\<bar> \<le> 1 / 2"
proof -
  define D :: int where "D = 2 * int k * int n - 2000 * int c"
  have rn: "0 < real n" using n by simp
  have eq: "real k - real c / real n * 1000 = real_of_int D / (2 * real n)"
    using rn by (simp add: D_def field_simps)
  have nb: "real n < 2 ^ 32"
  proof -
    have "real n < real (2 ^ 32)" using n(2) by (rule iffD2 [OF of_nat_less_iff])
    then show ?thesis by simp
  qed
  have "\<bar>D\<bar> \<le> int n"
  proof (rule ccontr)
    assume "\<not> \<bar>D\<bar> \<le> int n"
    then have "int n + 1 \<le> \<bar>D\<bar>" by linarith
    then have "real_of_int (int n + 1) \<le> real_of_int \<bar>D\<bar>" by (rule iffD2 [OF of_int_le_iff])
    then have d: "real n + 1 \<le> \<bar>real_of_int D\<bar>" by simp
    have "\<bar>real_of_int D\<bar> / (2 * real n) \<le> 1 / 2 + 1 / 2 ^ 40"
      using close rn unfolding eq by (simp add: abs_divide)
    then have "\<bar>real_of_int D\<bar> \<le> (1 / 2 + 1 / 2 ^ 40) * (2 * real n)"
      using rn by (simp add: pos_divide_le_eq)
    then have "real n + 1 \<le> real n + real n / 2 ^ 39" using d by (simp add: algebra_simps)
    then have "2 ^ 39 \<le> real n" by simp
    then show False using nb by simp
  qed
  then have "real_of_int \<bar>D\<bar> \<le> real_of_int (int n)" by (rule iffD2 [OF of_int_le_iff])
  then have "\<bar>real_of_int D\<bar> \<le> real n" by simp
  then have "\<bar>real_of_int D\<bar> / (2 * real n) \<le> 1 / 2"
    using rn by (simp add: pos_divide_le_eq)
  then show ?thesis unfolding eq using rn by (simp add: abs_divide)
qed

lemma percent_field:
  assumes "c \<le> n" "0 < n"
  shows "tenth_near (1 / 20 + 1 / 2 ^ 45) (JStr (toFixed 1 (fl (fl (real c / real n) * 100))))
           (real c / real n * 100)"
    and "n < 2 ^ 32 \<Longrightarrow>
         tenth_near (1 / 20) (JStr (toFixed 1 (fl (fl (real c / real n) * 100))))
           (real c / real n * 100)"
proof -
  define p where "p = fl (fl (real c / real n) * 100)"
  define e where "e = real c / real n * 100"
  define k where "k = nat \<lfloor>p * 10 + 1 / 2\<rfloor>"
  have p0: "0 \<le> p" and pe: "\<bar>p - e\<bar> \<le> 200 / 2 ^ 53"
    using percent_double [OF assms] by (simp_all add: p_def e_def)
  have dv: "decimal_value (toFixed 1 p) = Some (real k / 10)"
    using toFixed1_value [OF p0] by (simp add: k_def)
  have kf: "real k = real_of_int \<lfloor>p * 10 + 1 / 2\<rfloor>" using p0 by (simp add: k_def)
  have kp: "\<bar>real k - p * 10\<bar> \<le> 1 / 2" unfolding kf by linarith
  have ten: "real k / 10 * 10 = real_of_int \<lfloor>real k / 10 * 10\<rfloor>" by simp
  have small: "(200 :: real) / 2 ^ 53 \<le> 1 / 2 ^ 45" by simp
  have "\<bar>real k / 10 - e\<bar> \<le> 1 / 20 + 1 / 2 ^ 45" using kp pe small by linarith
  then show "tenth_near (1 / 20 + 1 / 2 ^ 45) (JStr (toFixed 1 (fl (fl (real c / real n) * 100))))
           (real c / real n * 100)"
    unfolding tenth_near_def p_def [symmetric] e_def [symmetric] using dv ten by simp
  assume n: "n < 2 ^ 32"
  have e10: "e * 10 = real c / real n * 1000" by (simp add: e_def)
  have small': "10 * ((200 :: real) / 2 ^ 53) \<le> 1 / 2 ^ 40" by simp
  have "\<bar>real k - e * 10\<bar> \<le> 1 / 2 + 1 / 2 ^ 40" using kp pe small' by linarith
  then have c1: "\<bar>real k - real c / real n * 1000\<bar> \<le> 1 / 2 + 1 / 2 ^ 40"
    unfolding e10 .
  have "\<bar>real k - real c / real n * 1000\<bar> \<le> 1 / 2"
    by (rule nearest_tenth_sharp [OF assms(2) n c1])
  then have "\<bar>real k - e * 10\<bar> \<le> 1 / 2" unfolding e10 .
  then have "\<bar>real k / 10 - e\<bar> \<le> 1 / 20" by linarith
  then show "tenth_near (1 / 20) (JStr (toFixed 1 (fl (fl (real c / real n) * 100))))
           (real c / real n * 100)"
    unfolding tenth_near_def p_def [symmetric] e_def [symmetric] using dv ten by simp
qed

lemma count_le_length:
  "below_count scores c \<le> length scores" "at_count scores c \<le> length scores"
  "above_count scores c \<le> length scores"
  by (simp_all add: below_count_def at_count_def above_count_def)

text \<open>
  A sample of 80 scores, 23 of them below the cutoff 75, 10 at it and 47 above it. The
  exact percentages are 28.75, 12.5 and 58.75; the doubles are 28.749999999999996, 12.5
  and 58.75.
\<close>

lemma sample80_counts:
  "below_count (replicate 23 70 @ replicate 10 75 @ replicate 47 80) 75 = 23"
  "at_count (replicate 23 70 @ replicate 10 75 @ replicate 47 80) 75 = 10"
  "above_count (replicate 23 70 @ replicate 10 75 @ replicate 47 80) 75 = 47"
  by (simp_all add: below_count_def at_count_def above_count_def)

lemma sample80_fields:
  "cutoffStats (replicate 23 70 @ replicate 10 75 @ replicate 47 80) 75 =
     \<lparr> below = JStr ''28.7'', above = JStr ''58.8'', at_cutoff = JStr ''12.5'' \<rparr>"
  by code_simp

lemma sample80_exact:
  "percent_text 23 80 = ''28.8''" "percent_text 10 80 = ''12.5''" "percent_text 47 80 = ''58.8''"
  by code_simp+

text \<open>
  Claim C5, amended: for every sample and every cutoff the counts of the scores below, at
  and above the cutoff add up to the length of the sample; for every non-empty sample each
  reported percentage is the text of a number of one decimal that differs from its count
  divided by the length, times 100, by no more than 0.05 and the rounding of the double
  arithmetic, which is below \<open>2\<^sup>-\<^sup>4\<^sup>5\<close>; and for a sample of fewer than \<open>2\<^sup>3\<^sup>2\<close> scores (the
  bound of the length of an array) by no more than 0.05, so that it is a number of one
  decimal nearest to the exact percentage, either of the two when they are equally near.
\<close>

theorem cutoffStats_partition:
  "below_count scores cutoffScore + at_count scores cutoffScore + above_count scores cutoffScore
     = length scores
   \<and> (scores \<noteq> [] \<longrightarrow>
        tenth_near (1 / 20 + 1 / 2 ^ 45) (below (cutoffStats scores cutoffScore))
          (real (below_count scores cutoffScore) / real (length scores) * 100)
      \<and> tenth_near (1 / 20 + 1 / 2 ^ 45) (at_cutoff (cutoffStats scores cutoffScore))
          (real (at_count scores cutoffScore) / real (length scores) * 100)
      \<and> tenth_near (1 / 20 + 1 / 2 ^ 45) (above (cutoffStats scores cutoffScore))
          (real (above_count scores cutoffScore) / real (length scores) * 100))
   \<and> (scores \<noteq> [] \<and> length scores < 2 ^ 32 \<longrightarrow>
        tenth_near (1 / 20) (below (cutoffStats scores cutoffScore))
          (real (below_count scores cutoffScore) / real (length scores) * 100)
      \<and> tenth_near (1 / 20) (at_cutoff (cutoffStats scores cutoffScore))
          (real (at_count scores cutoffScore) / real (length scores) * 100)
      \<and> tenth_near (1 / 20) (above (cutoffStats scores cutoffScore))
          (real (above_count scores cutoffScore) / real (length scores) * 100))"
proof (intro conjI impI)
  show "below_count scores cutoffScore + at_count scores cutoffScore + above_count scores cutoffScore
     = length scores"
    by (rule partition_counts)
next
  assume ne: "scores \<noteq> []"
  then have n: "0 < length scores" by simp
  show "tenth_near (1 / 20 + 1 / 2 ^ 45) (below (cutoffStats scores cutoffScore))
          (real (below_count scores cutoffScore) / real (length scores) * 100)"
    using percent_field(1) [OF count_le_length(1) n, of cutoffScore] ne
    by (simp add: cutoffStats_def)
  show "tenth_near (1 / 20 + 1 / 2 ^ 45) (at_cutoff (cutoffStats scores cutoffScore))
          (real (at_count scores cutoffScore) / real (length scores) * 100)"
    using percent_field(1) [OF count_le_length(2) n, of cutoffScore] ne
    by (simp add: cutoffStats_def)
  show "tenth_near (1 / 20 + 1 / 2 ^ 45) (above (cutoffStats scores cutoffScore))
          (real (above_count scores cutoffScore) / real (length scores) * 100)"
    using percent_field(1) [OF count_le_length(3) n, of cutoffScore] ne
    by (simp add: cutoffStats_def)
next
  assume a: "scores \<noteq> [] \<and> length scores < 2 ^ 32"
  then have ne: "scores \<noteq> []" and n: "0 < length scores" and b: "length scores < 2 ^ 32"
    by simp_all
  show "tenth_near (1 / 20) (below (cutoffStats scores cutoffScore))
          (real (below_count scores cutoffScore) / real (length scores) * 100)"
    using percent_field(2) [OF count_le_length(1) n b, of cutoffScore] ne
    by (simp add: cutoffStats_def)
  show "tenth_near (1 / 20) (at_cutoff (cutoffStats scores cutoffScore))
          (real (at_count scores cutoffScore) / real (length scores) * 100)"
    using percent_field(2) [OF count_le_length(2) n b, of cutoffScore] ne
    by (simp add: cutoffStats_def)
  show "tenth_near (1 / 20) (above (cutoffStats scores cutoffScore))
          (real (above_count scores cutoffScore) / real (length scores) * 100)"
    using percent_field(2) [OF count_le_length(3) n b, of cutoffScore] ne
    by (simp add: cutoffStats_def)
qed

text \<open>
  The sample of 80 scores with the cutoff 75: the fields are the texts 28.7, 12.5 and
  58.8, each within 0.05 of 28.75, 12.5 and 58.75.
\<close>

theorem cutoffStats_partition_witness:
  "below_count (replicate 23 70 @ replicate 10 75 @ replicate 47 80) 75
     + at_count (replicate 23 70 @ replicate 10 75 @ replicate 47 80) 75
     + above_count (replicate 23 70 @ replicate 10 75 @ replicate 47 80) 75 = 80
   \<and> cutoffStats (replicate 23 70 @ replicate 10 75 @ replicate 47 80) 75 =
       \<lparr> below = JStr ''28.7'', above = JStr ''58.8'', at_cutoff = JStr ''12.5'' \<rparr>
   \<and> tenth_near (1 / 20) (JStr ''28.7'') (23 / 80 * 100)
   \<and> tenth_near (1 / 20) (JStr ''12.5'') (10 / 80 * 100)
   \<and> tenth_near (1 / 20) (JStr ''58.8'') (47 / 80 * 100)"
  using cutoffStats_partition [of "replicate 23 70 @ replicate 10 75 @ replicate 47 80" 75]
  by (simp add: sample80_counts sample80_fields)

text \<open>
  Claim C5, as stated, has each reported percentage equal to the count divided by the
  total, times 100, rounded to one decimal. For the empty sample the count and the total
  are 0 and the quotient is not a number, while the classifier returns the number 0. And
  for 23 scores of 80 below the cutoff the percentage is 28.75, which rounds to 28.8,
  while the classifier, whose double product is just below 28.75, reports 28.7.
\<close>

theorem cutoffStats_percent_differs:
  "cutoffStats [] 75 = \<lparr> below = JNum 0, above = JNum 0, at_cutoff = JNum 0 \<rparr>
   \<and> percent_text (below_count [] 75) (length ([] :: real list)) = ''NaN''
   \<and> below (cutoffStats [] 75)
       \<noteq> JStr (percent_text (below_count [] 75) (length ([] :: real list)))
   \<and> below_count (replicate 23 70 @ replicate 10 75 @ replicate 47 80) 75 = 23
   \<and> length (replicate 23 (70 :: real) @ replicate 10 75 @ replicate 47 80) = 80
   \<and> percent_text 23 80 = ''28.8''
   \<and> below (cutoffStats (replicate 23 70 @ replicate 10 75 @ replicate 47 80) 75) = JStr ''28.7''"
  by (simp add: sample80_counts sample80_fields sample80_exact)
     (simp add: cutoffStats_def percent_text_def toFixed_num_def)

end
